theory Spec2Isabelle
  imports Complex_Main "HOL-Library.Sublist" "HOL-Library.Char_ord" "HOL-Library.List_Lexorder"
begin

section \<open>Python values used by \<^verbatim>\<open>main.py\<close>\<close>

text \<open>
  Exceptions that the modelled functions can raise. \<open>NotModelled\<close> is not a Python
  exception: it marks an input outside the fragment of the literal syntax of Python's
  \<^verbatim>\<open>float()\<close>/\<^verbatim>\<open>int()\<close> and of SQLite's \<^verbatim>\<open>CAST\<close> that this development
  covers (plain ASCII decimal digit strings). Nothing is claimed about such inputs.
\<close>

datatype error = IndexError | OverflowError | NotModelled

subsection \<open>Decimal digits: \<^verbatim>\<open>str(n)\<close> and digit strings\<close>

definition digit_char :: "nat \<Rightarrow> char" where
  "digit_char d = ''0123456789'' ! d"

function str_nat :: "nat \<Rightarrow> string" where
  "str_nat n = (if n < 10 then [digit_char n] else str_nat (n div 10) @ [digit_char (n mod 10)])"
  by pat_completeness auto
termination
  by (relation "measure id") auto

declare str_nat.simps [simp del]

definition is_digit :: "char \<Rightarrow> bool" where
  "is_digit c = (c \<in> set ''0123456789'')"

definition digit_val :: "char \<Rightarrow> nat" where
  "digit_val c = of_char c - 48"

definition nat_of_digits :: "string \<Rightarrow> nat" where
  "nat_of_digits ds = foldl (\<lambda>a c. 10 * a + digit_val c) 0 ds"

definition all_digits :: "string \<Rightarrow> bool" where
  "all_digits ds = list_all is_digit ds"

subsection \<open>IEEE doubles\<close>

text \<open>
  A finite double is modelled by the rational number it denotes. \<open>to_double_nat n\<close> is
  \<^verbatim>\<open>float(n)\<close> for a non-negative integer: \<open>n\<close> rounded to a 53-bit significand,
  ties to even, still as an integer. A result of \<open>2 ^ 1024\<close> or more does not fit a
  double; the callers below test for it.
\<close>

function bit_length :: "nat \<Rightarrow> nat" where
  "bit_length n = (if n = 0 then 0 else Suc (bit_length (n div 2)))"
  by pat_completeness auto
termination
  by (relation "measure id") auto

declare bit_length.simps [simp del]

definition to_double_nat :: "nat \<Rightarrow> nat" where
  "to_double_nat n =
     (let shift = bit_length n - 53;
          q = n div 2 ^ shift;
          r = n mod 2 ^ shift
      in if 2 ^ shift < 2 * r \<or> (2 * r = 2 ^ shift \<and> odd q)
         then (q + 1) * 2 ^ shift else q * 2 ^ shift)"

text \<open>
  The format specification \<^verbatim>\<open>.0f\<close> rounds the exact value of the double to an
  integer, ties to even, and prints its decimal digits. Only non-negative values occur.
\<close>

definition round_half_even :: "rat \<Rightarrow> int" where
  "round_half_even x =
     (let f = \<lfloor>x\<rfloor>; d = x - of_int f
      in if d < 1 / 2 then f else if 1 / 2 < d then f + 1 else if even f then f else f + 1)"

definition fmt0 :: "rat \<Rightarrow> string" where
  "fmt0 x = str_nat (nat (round_half_even x))"

section \<open>Size codec\<close>

subsection \<open>\<^verbatim>\<open>human_readable_size\<close>\<close>

text \<open>
  \<^verbatim>\<open>
  def human_readable_size(size_bytes):
      for unit in ['B', 'K', 'M', 'G', 'T']:
          if size_bytes < 1024:
              return f"{size_bytes:.0f}{unit}"
          size_bytes /= 1024
      return f"{size_bytes:.0f}P"
  \<close>
  The argument is the integer that \<^verbatim>\<open>os.path.getsize\<close> returns, so the first
  iteration compares and formats an integer, and the first \<^verbatim>\<open>/=\<close> is Python's true
  division of an integer by 1024: the correctly rounded quotient, or OverflowError when
  that does not fit a double. From then on the value is a double of at least 1, and
  dividing it by 1024 is exact.
\<close>

definition true_div_1024 :: "nat \<Rightarrow> rat" where
  "true_div_1024 n = of_nat (to_double_nat n) / 1024"

fun scale_loop :: "rat \<Rightarrow> string \<Rightarrow> string" where
  "scale_loop x [] = fmt0 x @ ''P''"
| "scale_loop x (unit # units) =
     (if x < 1024 then fmt0 x @ [unit] else scale_loop (x / 1024) units)"

definition human_readable_size :: "nat \<Rightarrow> error + string" where
  "human_readable_size size_bytes =
     (if size_bytes < 1024 then Inr (fmt0 (of_nat size_bytes) @ ''B'')
      else if 2 ^ 1024 \<le> true_div_1024 size_bytes then Inl OverflowError
      else Inr (scale_loop (true_div_1024 size_bytes) ''KMGT''))"

subsection \<open>\<^verbatim>\<open>size_to_bytes\<close>\<close>

text \<open>
  \<^verbatim>\<open>
  def size_to_bytes(size_str):
      size_str = size_str.upper()
      units = {"B": 1, "K": 1024, "M": 1024**2, "G": 1024**3, "T": 1024**4, "P": 1024**5}
      if size_str[-1] in units:
          return int(float(size_str[:-1]) * units[size_str[-1]])
      return int(size_str)
  \<close>
  \<^verbatim>\<open>float()\<close> and \<^verbatim>\<open>int()\<close> are modelled on non-empty strings of ASCII digits.
  \<^verbatim>\<open>float()\<close> rounds the number to a double and never raises on digits: a number
  too large becomes \<^verbatim>\<open>inf\<close>, which stays \<^verbatim>\<open>inf\<close> under the multiplication and makes
  \<^verbatim>\<open>int()\<close> raise OverflowError. The product of a double and a power of 1024 is
  exact unless it overflows. \<^verbatim>\<open>int()\<close> of a string of more than 4300 digits depends on
  the interpreter's digit limit and is left out.
\<close>

definition upper_char :: "char \<Rightarrow> char" where
  "upper_char c =
     (case map_of (zip ''abcdefghijklmnopqrstuvwxyz'' ''ABCDEFGHIJKLMNOPQRSTUVWXYZ'') c of
        Some u \<Rightarrow> u
      | None \<Rightarrow> c)"

definition upper :: "string \<Rightarrow> string" where
  "upper s = map upper_char s"

definition units :: "(char \<times> nat) list" where
  "units = [(CHR ''B'', 1), (CHR ''K'', 1024), (CHR ''M'', 1024 ^ 2), (CHR ''G'', 1024 ^ 3),
            (CHR ''T'', 1024 ^ 4), (CHR ''P'', 1024 ^ 5)]"

definition py_float :: "string \<Rightarrow> error + rat" where
  "py_float s =
     (if s \<noteq> [] \<and> all_digits s then Inr (of_nat (to_double_nat (nat_of_digits s)))
      else Inl NotModelled)"

definition py_int :: "string \<Rightarrow> error + int" where
  "py_int s =
     (if s \<noteq> [] \<and> all_digits s \<and> length s \<le> 4300 then Inr (int (nat_of_digits s))
      else Inl NotModelled)"

definition size_to_bytes :: "string \<Rightarrow> error + int" where
  "size_to_bytes size_str =
     (let s = upper size_str
      in if s = [] then Inl IndexError
         else case map_of units (last s) of
                Some u \<Rightarrow>
                  (case py_float (butlast s) of
                     Inl e \<Rightarrow> Inl e
                   | Inr x \<Rightarrow>
                       if 2 ^ 1024 \<le> x * of_nat u then Inl OverflowError
                       else Inr \<lfloor>x * of_nat u\<rfloor>)
              | None \<Rightarrow> py_int s)"

section \<open>The file system and the store\<close>

text \<open>
  The file system is an input of the run. A directory holds its files in the order
  \<^verbatim>\<open>os.walk\<close> lists them, and its subdirectories by name; \<open>Unlistable\<close> is a
  directory entry that \<^verbatim>\<open>os.walk\<close> does not descend into (a listing error, which it
  ignores, or a symbolic link). For each file the tree records what the two reads of
  the run give: \<open>fread\<close> is either the text of the exception raised while the content
  is read, or the SHA-256 hex digest of the content (hashlib's result, not computed
  here); \<open>fstat\<close> is the size \<^verbatim>\<open>os.path.getsize\<close> returns, \<open>None\<close> when it raises.
\<close>

datatype read_outcome = ReadError string | Digest string

record file_entry =
  fname :: string
  fread :: read_outcome
  fstat :: "nat option"

datatype fs_dir = Unlistable | Dir "file_entry list" "(string \<times> fs_dir) list"

text \<open>A row of the table \<^verbatim>\<open>files\<close>; the list of rows is in \<^verbatim>\<open>id\<close> order.\<close>

record file_row =
  row_path :: string
  row_hash :: string
  row_size :: string

text \<open>\<^verbatim>\<open>os.path.join\<close> of two components (POSIX).\<close>

definition path_join :: "string \<Rightarrow> string \<Rightarrow> string" where
  "path_join a b =
     (if prefix ''/'' b then b
      else if a = [] \<or> suffix ''/'' a then a @ b
      else a @ ''/'' @ b)"

text \<open>
  \<^verbatim>\<open>os.walk(dir)\<close>, top-down: the triple of the directory, then the walks of its
  subdirectories. The second component lists the names of the subdirectories.
\<close>

fun walk :: "string \<Rightarrow> fs_dir \<Rightarrow> (string \<times> string list \<times> file_entry list) list" where
  "walk dir Unlistable = []"
| "walk dir (Dir files subdirs) =
     (dir, map fst subdirs, files) #
     concat (map (\<lambda>(name, d). walk (path_join dir name) d) subdirs)"

section \<open>Indexer\<close>

subsection \<open>\<^verbatim>\<open>hash_file\<close>\<close>

text \<open>
  \<^verbatim>\<open>
  def hash_file(file_path):
      hash_sha256 = hashlib.sha256()
      try:
          with open(file_path, "rb") as f:
              for chunk in iter(lambda: f.read(8192), b""):
                  hash_sha256.update(chunk)
          return hash_sha256.hexdigest()
      except Exception as e:
          print(f"Error reading {file_path}: {e}")
          return None
  \<close>
  The result is the digest or \<open>None\<close>, with the lines printed.
\<close>

definition hash_file :: "string \<Rightarrow> read_outcome \<Rightarrow> string option \<times> string list" where
  "hash_file file_path r =
     (case r of
        Digest h \<Rightarrow> (Some h, [])
      | ReadError e \<Rightarrow> (None, [''Error reading '' @ file_path @ '': '' @ e]))"

subsection \<open>\<^verbatim>\<open>index_directory\<close>\<close>

text \<open>
  \<^verbatim>\<open>
  def index_directory(base_dir, conn, skip_types, exclude_dirs, include_files, verbose=False):
      cur = conn.cursor()
      file_count = 0
      for root, dirs, files in os.walk(base_dir):
          if any(excl in root for excl in exclude_dirs):
              continue
          if verbose:
              print(f"Scanning directory: {root}")
          for file in files:
              file_path = os.path.join(root, file)
              if include_files and file_path not in include_files:
                  continue
              if any(file.endswith(ext) for ext in skip_types):
                  continue
              file_hash = hash_file(file_path)
              try:
                  size_bytes = os.path.getsize(file_path)
                  size_hr = human_readable_size(size_bytes)
              except Exception:
                  size_hr = "0B"
              if file_hash:
                  cur.execute("INSERT INTO files (path, hash, size) VALUES (?, ?, ?)", ...)
                  file_count += 1
                  if file_count % 200 == 0:
                      print(f"Processed {file_count} files...")
      conn.commit()
      print(f"Total files processed: {file_count}")
  \<close>
  The state of the loops is the table, the lines printed so far and \<open>file_count\<close>. The
  three filter sets are sets of strings. Storage errors are not modelled.
\<close>

record walk_state =
  db :: "file_row list"
  out :: "string list"
  file_count :: nat

datatype pyval = PyNone | PyInt int

definition size_hr_of :: "nat option \<Rightarrow> string" where
  "size_hr_of st =
     (case st of
        None \<Rightarrow> ''0B''
      | Some size_bytes \<Rightarrow>
          (case human_readable_size size_bytes of Inl e \<Rightarrow> ''0B'' | Inr s \<Rightarrow> s))"

definition truthy :: "string option \<Rightarrow> bool" where
  "truthy v = (case v of None \<Rightarrow> False | Some s \<Rightarrow> s \<noteq> [])"

definition index_file ::
  "string set \<Rightarrow> string set \<Rightarrow> string \<Rightarrow> file_entry \<Rightarrow> walk_state \<Rightarrow> walk_state" where
  "index_file skip_types include_files dirpath file s =
     (let file_path = path_join dirpath (fname file)
      in if include_files \<noteq> {} \<and> file_path \<notin> include_files then s
         else if \<exists>ext\<in>skip_types. suffix ext (fname file) then s
         else
           let (file_hash, printed) = hash_file file_path (fread file);
               s1 = s\<lparr>out := out s @ printed\<rparr>;
               size_hr = size_hr_of (fstat file)
           in if truthy file_hash
              then
                let s2 = s1\<lparr>db := db s1 @
                            [\<lparr>row_path = file_path, row_hash = the file_hash, row_size = size_hr\<rparr>],
                          file_count := file_count s1 + 1\<rparr>
                in if file_count s2 mod 200 = 0
                   then s2\<lparr>out := out s2 @
                          [''Processed '' @ str_nat (file_count s2) @ '' files...'']\<rparr>
                   else s2
              else s1)"

definition index_root ::
  "string set \<Rightarrow> string set \<Rightarrow> string set \<Rightarrow> bool \<Rightarrow>
   string \<times> string list \<times> file_entry list \<Rightarrow> walk_state \<Rightarrow> walk_state" where
  "index_root skip_types exclude_dirs include_files verbose t s =
     (case t of (dirpath, dirs, files) \<Rightarrow>
        if \<exists>excl\<in>exclude_dirs. sublist excl dirpath then s
        else
          let s1 = (if verbose then s\<lparr>out := out s @ [''Scanning directory: '' @ dirpath]\<rparr> else s)
          in fold (index_file skip_types include_files dirpath) files s1)"

definition index_walk ::
  "string set \<Rightarrow> string set \<Rightarrow> string set \<Rightarrow> bool \<Rightarrow>
   (string \<times> string list \<times> file_entry list) list \<Rightarrow> walk_state \<Rightarrow> walk_state" where
  "index_walk skip_types exclude_dirs include_files verbose ts s =
     fold (index_root skip_types exclude_dirs include_files verbose) ts s"

definition index_directory ::
  "string \<Rightarrow> fs_dir \<Rightarrow> file_row list \<Rightarrow> string set \<Rightarrow> string set \<Rightarrow> string set \<Rightarrow> bool \<Rightarrow>
   pyval \<times> file_row list \<times> string list" where
  "index_directory base_dir fs conn skip_types exclude_dirs include_files verbose =
     (let s = index_walk skip_types exclude_dirs include_files verbose (walk base_dir fs)
                \<lparr>db = conn, out = [], file_count = 0\<rparr>
      in (PyNone, db s, out s @ [''Total files processed: '' @ str_nat (file_count s)]))"

section \<open>Duplicate query\<close>

text \<open>
  \<^verbatim>\<open>
  def find_duplicates(conn, min_size=None):
      cur = conn.cursor()
      if min_size:
          cur.execute("""
              SELECT hash, GROUP_CONCAT(path, '\n') AS paths
              FROM files
              WHERE CAST(REPLACE(size, SUBSTR(size, -1), '') AS FLOAT) *
                    CASE SUBSTR(size, -1)
                        WHEN 'B' THEN 1
                        WHEN 'K' THEN 1024
                        WHEN 'M' THEN 1048576
                        WHEN 'G' THEN 1073741824
                        WHEN 'T' THEN 1099511627776
                        WHEN 'P' THEN 1125899906842624
                        ELSE 1
                    END >= ?
              GROUP BY hash
              HAVING COUNT(*) > 1
          """, (min_size,))
      else:
          cur.execute("""
              SELECT hash, GROUP_CONCAT(path, '\n') AS paths
              FROM files
              GROUP BY hash
              HAVING COUNT(*) > 1
          """)
      return cur.fetchall()
  \<close>
  The statements are run by SQLite; the model follows what SQLite computes for them.
  \<^verbatim>\<open>GROUP BY hash\<close> gives one result row per distinct hash among the rows that pass
  \<^verbatim>\<open>WHERE\<close>, in ascending order of the hash, and \<^verbatim>\<open>GROUP_CONCAT\<close> joins the paths of
  a group in \<^verbatim>\<open>id\<close> order, with a newline between them.
\<close>

fun join_with :: "string \<Rightarrow> string list \<Rightarrow> string" where
  "join_with sep [] = []"
| "join_with sep [p] = p"
| "join_with sep (p # q # ps) = p @ sep @ join_with sep (q # ps)"

definition rows_of_hash :: "string \<Rightarrow> file_row list \<Rightarrow> file_row list" where
  "rows_of_hash h rows = filter (\<lambda>r. row_hash r = h) rows"

definition group_by_hash :: "file_row list \<Rightarrow> (string \<times> string) list" where
  "group_by_hash rows =
     map (\<lambda>h. (h, join_with [CHR 0x0A] (map row_path (rows_of_hash h rows))))
       (filter (\<lambda>h. 1 < length (rows_of_hash h rows))
          (sort (remdups (map row_hash rows))))"

text \<open>
  The left side of the comparison in \<^verbatim>\<open>WHERE\<close>. \<^verbatim>\<open>REPLACE\<close> deletes every
  occurrence of the last character of \<^verbatim>\<open>size\<close> (and nothing when \<^verbatim>\<open>size\<close> is
  empty), and \<^verbatim>\<open>CASE\<close> compares that character with the upper-case unit letters.
  \<^verbatim>\<open>CAST(... AS FLOAT)\<close> is modelled on strings of ASCII digits that denote a number
  below \<open>2 ^ 53\<close>, which it converts exactly; the empty string gives 0. The result is
  \<open>None\<close> for any other string.
\<close>

definition sql_unit_factor :: "string \<Rightarrow> nat" where
  "sql_unit_factor s =
     (if s = [] then 1
      else if last s = CHR ''B'' then 1
      else if last s = CHR ''K'' then 1024
      else if last s = CHR ''M'' then 1048576
      else if last s = CHR ''G'' then 1073741824
      else if last s = CHR ''T'' then 1099511627776
      else if last s = CHR ''P'' then 1125899906842624
      else 1)"

definition sql_size_bytes :: "string \<Rightarrow> rat option" where
  "sql_size_bytes s =
     (let num = (if s = [] then [] else filter (\<lambda>c. c \<noteq> last s) s)
      in if all_digits num \<and> nat_of_digits num < 2 ^ 53
         then Some (of_nat (nat_of_digits num) * of_nat (sql_unit_factor s))
         else None)"

definition size_at_least :: "int \<Rightarrow> file_row \<Rightarrow> bool" where
  "size_at_least min_size r =
     (case sql_size_bytes (row_size r) of Some b \<Rightarrow> of_int min_size \<le> b | None \<Rightarrow> False)"

text \<open>
  \<^verbatim>\<open>if min_size:\<close> is false for \<^verbatim>\<open>None\<close> and for 0. The parameter is bound as a
  64-bit integer; sqlite3 raises OverflowError for a value outside that range.
\<close>

definition find_duplicates :: "file_row list \<Rightarrow> int option \<Rightarrow> error + (string \<times> string) list" where
  "find_duplicates conn min_size =
     (if min_size \<noteq> None \<and> min_size \<noteq> Some 0
      then
        let m = the min_size
        in if m < - (2 ^ 63) \<or> 2 ^ 63 \<le> m then Inl OverflowError
           else if \<exists>r\<in>set conn. sql_size_bytes (row_size r) = None then Inl NotModelled
           else Inr (group_by_hash (filter (size_at_least m) conn))
      else Inr (group_by_hash conn))"

text \<open>
  The threshold that \<^verbatim>\<open>main\<close> passes on:
  \<^verbatim>\<open>
  min_size_bytes = size_to_bytes(args.min_size) if args.min_size else None
  duplicates = find_duplicates(conn, min_size=min_size_bytes)
  \<close>
\<close>

definition min_size_bytes :: "string option \<Rightarrow> error + int option" where
  "min_size_bytes arg =
     (if truthy arg
      then case size_to_bytes (the arg) of Inl e \<Rightarrow> Inl e | Inr b \<Rightarrow> Inr (Some b)
      else Inr None)"

definition main_find_dupes :: "file_row list \<Rightarrow> string option \<Rightarrow> error + (string \<times> string) list" where
  "main_find_dupes conn arg =
     (case min_size_bytes arg of Inl e \<Rightarrow> Inl e | Inr m \<Rightarrow> find_duplicates conn m)"

section \<open>Directories of a tree\<close>

text \<open>
  Two notions used to state properties of the walk. \<open>dirs_of dir t\<close> lists every
  directory of the tree \<open>t\<close> found at \<open>dir\<close>, with the path under which
  \<^verbatim>\<open>os.walk\<close> reaches it. \<open>wf_names\<close> holds when no subdirectory name contains
  the separator, as is the case for the names a directory listing returns.
\<close>

fun dirs_of :: "string \<Rightarrow> fs_dir \<Rightarrow> (string \<times> fs_dir) list" where
  "dirs_of dir Unlistable = [(dir, Unlistable)]"
| "dirs_of dir (Dir files subdirs) =
     (dir, Dir files subdirs) #
     concat (map (\<lambda>(name, d). dirs_of (path_join dir name) d) subdirs)"

fun wf_names :: "fs_dir \<Rightarrow> bool" where
  "wf_names Unlistable = True"
| "wf_names (Dir files subdirs) =
     list_all (\<lambda>(name, d). CHR ''/'' \<notin> set name \<and> wf_names d) subdirs"

section \<open>The unit of an encoded size, in the words of the specification\<close>

text \<open>
  The specification has the encoder divide by 1024 until the value is below 1024, over
  the units B, K, M, G, T, P, and stop at P. \<open>spec_scale_steps n\<close> is the number of
  divisions this makes for \<open>n\<close> bytes, in exact arithmetic: the index of the unit.
\<close>

fun spec_scale :: "nat \<Rightarrow> rat \<Rightarrow> nat" where
  "spec_scale 0 x = 0"
| "spec_scale (Suc units_left) x =
     (if x < 1024 then 0 else Suc (spec_scale units_left (x / 1024)))"

definition spec_scale_steps :: "nat \<Rightarrow> nat" where
  "spec_scale_steps n = spec_scale 5 (of_nat n)"

section \<open>Properties of the duplicate query: zero threshold\<close>

lemma size_to_bytes_zero: "size_to_bytes ''0'' = Inr 0"
  by (simp add: size_to_bytes_def upper_def upper_char_def units_def py_int_def all_digits_def
      is_digit_def nat_of_digits_def digit_val_def)

text \<open>
  C10. A threshold of 0 takes the branch of \<^verbatim>\<open>find_duplicates\<close> without
  \<^verbatim>\<open>WHERE\<close>, as no threshold does: the two calls return the same groups for every
  table, and so does \<^verbatim>\<open>main\<close> when it is given \<^verbatim>\<open>--min-size 0\<close>.
\<close>

theorem find_duplicates_zero_threshold:
  "find_duplicates conn (Some 0) = find_duplicates conn None
   \<and> main_find_dupes conn (Some ''0'') = find_duplicates conn None
   \<and> find_duplicates conn None = Inr (group_by_hash conn)"
  by (simp add: find_duplicates_def main_find_dupes_def min_size_bytes_def truthy_def
      size_to_bytes_zero)

theorem find_duplicates_zero_threshold_witness:
  "find_duplicates [\<lparr>row_path = ''/a'', row_hash = ''H1'', row_size = ''5M''\<rparr>,
        \<lparr>row_path = ''/b'', row_hash = ''H1'', row_size = ''1K''\<rparr>] (Some 0)
     = Inr [(''H1'', ''/a'' @ [CHR 0x0A] @ ''/b'')]"
  using find_duplicates_zero_threshold [of "[\<lparr>row_path = ''/a'', row_hash = ''H1'', row_size = ''5M''\<rparr>,
        \<lparr>row_path = ''/b'', row_hash = ''H1'', row_size = ''1K''\<rparr>]"]
  by (simp add: group_by_hash_def rows_of_hash_def)

section \<open>Properties of the indexer: the empty suffix\<close>

lemma index_file_skip_empty:
  "[] \<in> skip_types \<Longrightarrow> index_file skip_types include_files dirpath file s = s"
  by (auto simp: index_file_def Let_def)

lemma fold_index_file_skip_empty:
  "[] \<in> skip_types \<Longrightarrow> fold (index_file skip_types include_files dirpath) files s = s"
  by (induction files) (simp_all add: index_file_skip_empty)

lemma index_root_skip_empty:
  assumes "[] \<in> skip_types"
  shows "db (index_root skip_types exclude_dirs include_files verbose t s) = db s
       \<and> file_count (index_root skip_types exclude_dirs include_files verbose t s) = file_count s"
  using assms by (cases t) (simp add: index_root_def fold_index_file_skip_empty)

lemma index_walk_skip_empty:
  assumes "[] \<in> skip_types"
  shows "db (index_walk skip_types exclude_dirs include_files verbose ts s) = db s
       \<and> file_count (index_walk skip_types exclude_dirs include_files verbose ts s) = file_count s"
  unfolding index_walk_def
proof (induction ts arbitrary: s)
  case Nil
  show ?case by simp
next
  case (Cons t ts)
  show ?case using index_root_skip_empty [OF assms] Cons.IH by simp
qed

text \<open>
  C9. With an empty include set and the empty string among the skip suffixes, every
  file name ends with a skip suffix: the run leaves the table as it was, whatever the
  directory tree holds, and reports a count of 0.
\<close>

theorem skip_empty_suffix_persists_nothing:
  assumes "[] \<in> skip_types"
  shows "fst (snd (index_directory base_dir fs conn skip_types exclude_dirs {} verbose)) = conn
       \<and> last (snd (snd (index_directory base_dir fs conn skip_types exclude_dirs {} verbose)))
           = ''Total files processed: 0''"
  using index_walk_skip_empty [OF assms, of exclude_dirs "{}" verbose "walk base_dir fs"
      "\<lparr>db = conn, out = [], file_count = 0\<rparr>"]
  by (simp add: index_directory_def Let_def str_nat.simps digit_char_def)

theorem skip_empty_suffix_persists_nothing_witness:
  "[] \<in> {''.pyc'', ''''} \<and>
   fst (snd (index_directory ''/d''
       (Dir [\<lparr>fname = ''a.txt'', fread = Digest ''h1'', fstat = Some 5\<rparr>] [])
       [] {''.pyc'', ''''} {} {} False)) = []"
  using skip_empty_suffix_persists_nothing [of "{''.pyc'', ''''}" "''/d''"
      "Dir [\<lparr>fname = ''a.txt'', fread = Digest ''h1'', fstat = Some 5\<rparr>] []" "[]" "{}" False]
  by simp

section \<open>Properties of the indexer: per-file filters and failures\<close>

text \<open>
  C4. In a directory that is not excluded, the loop body runs on every file of the
  directory. A non-empty include set that does not hold the file's full path rejects
  the file whatever the skip suffixes are. With an empty include set the file is
  rejected when its name ends with a skip suffix and admitted when it does not: the file
  is then hashed, and a file with a digest gets its row, with its path, its digest and
  its encoded size, whether or not its size could be read, while a file that cannot be
  read gets the error line of \<^verbatim>\<open>hash_file\<close>.
\<close>

theorem include_set_allowlist:
  "(include_files \<noteq> {} \<and> path_join dirpath (fname entry) \<notin> include_files \<longrightarrow>
      index_file skip_types include_files dirpath entry s = s)
   \<and> ((\<exists>ext\<in>skip_types. suffix ext (fname entry)) \<longrightarrow>
        index_file skip_types {} dirpath entry s = s)
   \<and> ((\<forall>ext\<in>skip_types. \<not> suffix ext (fname entry)) \<and> fread entry = Digest h \<and> h \<noteq> [] \<longrightarrow>
        index_file skip_types {} dirpath entry s =
          s\<lparr>db := db s @ [\<lparr>row_path = path_join dirpath (fname entry), row_hash = h,
                              row_size = size_hr_of (fstat entry)\<rparr>],
            file_count := file_count s + 1,
            out := out s @
              (if (file_count s + 1) mod 200 = 0
               then [''Processed '' @ str_nat (file_count s + 1) @ '' files...''] else [])\<rparr>)
   \<and> ((\<forall>ext\<in>skip_types. \<not> suffix ext (fname entry)) \<and> fread entry = ReadError e \<longrightarrow>
        index_file skip_types {} dirpath entry s =
          s\<lparr>out := out s @
               [''Error reading '' @ path_join dirpath (fname entry) @ '': '' @ e]\<rparr>)
   \<and> index_file skip_types {} dirpath entry s =
       (if \<exists>ext\<in>skip_types. suffix ext (fname entry) then s
        else index_file {} {} dirpath entry s)
   \<and> ((\<forall>excl\<in>exclude_dirs. \<not> sublist excl dirpath) \<longrightarrow>
        index_root skip_types exclude_dirs include_files verbose (dirpath, dirs, files) s =
          fold (index_file skip_types include_files dirpath) files
            (if verbose then s\<lparr>out := out s @ [''Scanning directory: '' @ dirpath]\<rparr> else s))"
proof -
  have a: "include_files \<noteq> {} \<and> path_join dirpath (fname entry) \<notin> include_files \<longrightarrow>
      index_file skip_types include_files dirpath entry s = s"
    by (simp add: index_file_def)
  have b: "(\<exists>ext\<in>skip_types. suffix ext (fname entry)) \<longrightarrow>
        index_file skip_types {} dirpath entry s = s"
    by (simp add: index_file_def)
  have c: "(\<forall>ext\<in>skip_types. \<not> suffix ext (fname entry)) \<and> fread entry = Digest h \<and> h \<noteq> [] \<longrightarrow>
        index_file skip_types {} dirpath entry s =
          s\<lparr>db := db s @ [\<lparr>row_path = path_join dirpath (fname entry), row_hash = h,
                              row_size = size_hr_of (fstat entry)\<rparr>],
            file_count := file_count s + 1,
            out := out s @
              (if (file_count s + 1) mod 200 = 0
               then [''Processed '' @ str_nat (file_count s + 1) @ '' files...''] else [])\<rparr>"
    by (simp add: index_file_def Let_def hash_file_def truthy_def)
  have d: "(\<forall>ext\<in>skip_types. \<not> suffix ext (fname entry)) \<and> fread entry = ReadError e \<longrightarrow>
        index_file skip_types {} dirpath entry s =
          s\<lparr>out := out s @
               [''Error reading '' @ path_join dirpath (fname entry) @ '': '' @ e]\<rparr>"
    by (simp add: index_file_def Let_def hash_file_def truthy_def)
  have e: "index_file skip_types {} dirpath entry s =
       (if \<exists>ext\<in>skip_types. suffix ext (fname entry) then s
        else index_file {} {} dirpath entry s)"
    by (simp add: index_file_def)
  have f: "(\<forall>excl\<in>exclude_dirs. \<not> sublist excl dirpath) \<longrightarrow>
        index_root skip_types exclude_dirs include_files verbose (dirpath, dirs, files) s =
          fold (index_file skip_types include_files dirpath) files
            (if verbose then s\<lparr>out := out s @ [''Scanning directory: '' @ dirpath]\<rparr> else s)"
    by (simp add: index_root_def Let_def)
  show ?thesis
    by (intro conjI a b c d e f)
qed

lemma size_hr_of_5: "size_hr_of (Some 5) = ''5B''"
  by (simp add: size_hr_of_def human_readable_size_def fmt0_def round_half_even_def
      str_nat.simps digit_char_def)

theorem include_set_allowlist_witness:
  "{''/a/b.txt''} \<noteq> {} \<and> path_join ''/a'' ''c.txt'' \<notin> {''/a/b.txt''}
   \<and> index_file {} {''/a/b.txt''} ''/a''
         \<lparr>fname = ''c.txt'', fread = Digest ''h1'', fstat = Some 5\<rparr>
         \<lparr>db = [], out = [], file_count = 0\<rparr>
       = \<lparr>db = [], out = [], file_count = 0\<rparr>
   \<and> suffix ''.txt'' ''c.txt''
   \<and> index_file {''.txt''} {} ''/a''
         \<lparr>fname = ''c.txt'', fread = Digest ''h1'', fstat = Some 5\<rparr>
         \<lparr>db = [], out = [], file_count = 0\<rparr>
       = \<lparr>db = [], out = [], file_count = 0\<rparr>
   \<and> \<not> suffix ''.pyc'' ''c.txt''
   \<and> index_file {''.pyc''} {} ''/a''
         \<lparr>fname = ''c.txt'', fread = Digest ''h1'', fstat = Some 5\<rparr>
         \<lparr>db = [], out = [], file_count = 0\<rparr>
       = \<lparr>db = [\<lparr>row_path = ''/a/c.txt'', row_hash = ''h1'', row_size = ''5B''\<rparr>], out = [],
          file_count = 1\<rparr>
   \<and> index_file {''.pyc''} {} ''/a''
         \<lparr>fname = ''c.txt'', fread = ReadError ''denied'', fstat = Some 5\<rparr>
         \<lparr>db = [], out = [], file_count = 0\<rparr>
       = \<lparr>db = [], out = [''Error reading /a/c.txt: denied''], file_count = 0\<rparr>
   \<and> \<not> sublist ''venv'' ''/a''
   \<and> index_root {''.pyc''} {''venv''} {} False
         (''/a'', [], [\<lparr>fname = ''c.txt'', fread = Digest ''h1'', fstat = Some 5\<rparr>])
         \<lparr>db = [], out = [], file_count = 0\<rparr>
       = \<lparr>db = [\<lparr>row_path = ''/a/c.txt'', row_hash = ''h1'', row_size = ''5B''\<rparr>], out = [],
          file_count = 1\<rparr>"
proof -
  let ?f = "\<lparr>fname = ''c.txt'', fread = Digest ''h1'', fstat = Some 5\<rparr>"
  let ?g = "\<lparr>fname = ''c.txt'', fread = ReadError ''denied'', fstat = Some 5\<rparr>"
  let ?s = "\<lparr>db = [], out = [], file_count = 0\<rparr>"
  have p: "path_join ''/a'' ''c.txt'' = ''/a/c.txt''"
    by (simp add: path_join_def suffix_to_prefix)
  have is_txt: "suffix ''.txt'' ''c.txt''" and no_pyc: "\<not> suffix ''.pyc'' ''c.txt''"
    and no_venv: "\<not> sublist ''venv'' ''/a''"
    by (simp_all add: suffix_to_prefix sublist_code)
  have r1: "index_file {} {''/a/b.txt''} ''/a'' ?f ?s = ?s"
    using include_set_allowlist [where include_files = "{''/a/b.txt''}" and dirpath = "''/a''"
        and entry = ?f and skip_types = "{}" and s = ?s]
    by (simp add: p)
  have r2: "index_file {''.txt''} {} ''/a'' ?f ?s = ?s"
    using include_set_allowlist [where dirpath = "''/a''" and entry = ?f
        and skip_types = "{''.txt''}" and s = ?s] is_txt
    by simp
  have r3: "index_file {''.pyc''} {} ''/a'' ?f ?s =
      \<lparr>db = [\<lparr>row_path = ''/a/c.txt'', row_hash = ''h1'', row_size = ''5B''\<rparr>], out = [],
          file_count = 1\<rparr>"
    using include_set_allowlist [where dirpath = "''/a''" and entry = ?f
        and skip_types = "{''.pyc''}" and s = ?s and h = "''h1''"] no_pyc
    by (simp add: p size_hr_of_5)
  have r4: "index_file {''.pyc''} {} ''/a'' ?g ?s =
      \<lparr>db = [], out = [''Error reading /a/c.txt: denied''], file_count = 0\<rparr>"
    using include_set_allowlist [where dirpath = "''/a''" and entry = ?g
        and skip_types = "{''.pyc''}" and s = ?s and e = "''denied''"] no_pyc
    by (simp add: p)
  have r5: "index_root {''.pyc''} {''venv''} {} False (''/a'', [], [?f]) ?s =
      \<lparr>db = [\<lparr>row_path = ''/a/c.txt'', row_hash = ''h1'', row_size = ''5B''\<rparr>], out = [],
          file_count = 1\<rparr>"
    using include_set_allowlist [where include_files = "{}" and dirpath = "''/a''"
        and skip_types = "{''.pyc''}" and s = ?s and exclude_dirs = "{''venv''}"
        and verbose = False and dirs = "[]" and files = "[?f]"]
      no_venv r3
    by simp
  show ?thesis
    using p is_txt no_pyc no_venv r1 r2 r3 r4 r5 by simp
qed

text \<open>
  C7. For a file that passes the filters: when reading it fails, \<^verbatim>\<open>hash_file\<close> prints
  the error and gives no digest, the table and the count stay as they are, and the loop
  goes on with the remaining files of the directory; when the digest is there and the
  size cannot be read, the row is inserted with the size \<^verbatim>\<open>0B\<close>.
\<close>

theorem hash_failure_skips_stat_failure_zero:
  assumes "include_files = {} \<or> path_join dirpath (fname file) \<in> include_files"
    and "\<forall>ext\<in>skip_types. \<not> suffix ext (fname file)"
  shows "(fread file = ReadError e \<longrightarrow>
            index_file skip_types include_files dirpath file s =
              s\<lparr>out := out s @
                   [''Error reading '' @ path_join dirpath (fname file) @ '': '' @ e]\<rparr>
          \<and> db (index_file skip_types include_files dirpath file s) = db s
          \<and> file_count (index_file skip_types include_files dirpath file s) = file_count s
          \<and> fold (index_file skip_types include_files dirpath) (file # files) s =
              fold (index_file skip_types include_files dirpath) files
                (s\<lparr>out := out s @
                   [''Error reading '' @ path_join dirpath (fname file) @ '': '' @ e]\<rparr>))
       \<and> (fread file = Digest h \<and> h \<noteq> [] \<and> fstat file = None \<longrightarrow>
            db (index_file skip_types include_files dirpath file s) =
              db s @ [\<lparr>row_path = path_join dirpath (fname file), row_hash = h,
                       row_size = ''0B''\<rparr>]
          \<and> file_count (index_file skip_types include_files dirpath file s) = file_count s + 1)"
  using assms
  by (auto simp: index_file_def Let_def hash_file_def truthy_def size_hr_of_def)

theorem hash_failure_skips_stat_failure_zero_witness:
  "fold (index_file {''.pyc''} {} ''/d'')
     [\<lparr>fname = ''a.txt'', fread = ReadError ''denied'', fstat = Some 7\<rparr>,
      \<lparr>fname = ''b.txt'', fread = Digest ''h2'', fstat = None\<rparr>]
     \<lparr>db = [], out = [], file_count = 0\<rparr>
   = \<lparr>db = [\<lparr>row_path = ''/d/b.txt'', row_hash = ''h2'', row_size = ''0B''\<rparr>],
      out = [''Error reading /d/a.txt: denied''], file_count = 1\<rparr>"
proof -
  let ?a = "\<lparr>fname = ''a.txt'', fread = ReadError ''denied'', fstat = Some 7\<rparr>"
  let ?b = "\<lparr>fname = ''b.txt'', fread = Digest ''h2'', fstat = None\<rparr>"
  let ?s = "\<lparr>db = [], out = [], file_count = 0\<rparr>"
  let ?s1 = "\<lparr>db = [], out = [''Error reading /d/a.txt: denied''], file_count = 0\<rparr>"
  have skip: "\<forall>ext\<in>{''.pyc''}. \<not> suffix ext (fname ?a)"
    "\<forall>ext\<in>{''.pyc''}. \<not> suffix ext (fname ?b)"
    by (simp_all add: suffix_to_prefix)
  have a: "fold (index_file {''.pyc''} {} ''/d'') [?a, ?b] ?s =
           fold (index_file {''.pyc''} {} ''/d'') [?b] ?s1"
    using hash_failure_skips_stat_failure_zero [of "{}" "''/d''" ?a "{''.pyc''}" "''denied''" ?s
        "[?b]" "''h2''"] skip(1)
    by (simp add: path_join_def suffix_to_prefix)
  have b: "db (index_file {''.pyc''} {} ''/d'' ?b ?s1) =
             [\<lparr>row_path = ''/d/b.txt'', row_hash = ''h2'', row_size = ''0B''\<rparr>]
         \<and> file_count (index_file {''.pyc''} {} ''/d'' ?b ?s1) = 1"
    using hash_failure_skips_stat_failure_zero [of "{}" "''/d''" ?b "{''.pyc''}" "''x''" ?s1
        "[]" "''h2''"] skip(2)
    by (simp add: path_join_def suffix_to_prefix)
  have c: "out (index_file {''.pyc''} {} ''/d'' ?b ?s1) = [''Error reading /d/a.txt: denied'']"
    by (simp add: index_file_def hash_file_def truthy_def size_hr_of_def suffix_to_prefix)
  show ?thesis
    unfolding a using b c by (cases "index_file {''.pyc''} {} ''/d'' ?b ?s1") simp
qed

section \<open>Properties of the indexer: the count\<close>

lemma index_file_count:
  "\<exists>new. db (index_file skip_types include_files dirpath file s) = db s @ new
         \<and> file_count (index_file skip_types include_files dirpath file s) =
             file_count s + length new"
  by (auto simp: index_file_def Let_def hash_file_def split: read_outcome.splits)

lemma fold_index_file_count:
  "\<exists>new. db (fold (index_file skip_types include_files dirpath) files s) = db s @ new
         \<and> file_count (fold (index_file skip_types include_files dirpath) files s) =
             file_count s + length new"
proof (induction files arbitrary: s)
  case Nil
  show ?case by simp
next
  case (Cons f files)
  let ?s1 = "index_file skip_types include_files dirpath f s"
  obtain n1 where n1: "db ?s1 = db s @ n1" "file_count ?s1 = file_count s + length n1"
    using index_file_count by blast
  obtain n2 where n2:
    "db (fold (index_file skip_types include_files dirpath) files ?s1) = db ?s1 @ n2"
    "file_count (fold (index_file skip_types include_files dirpath) files ?s1) =
       file_count ?s1 + length n2"
    using Cons.IH by blast
  show ?case
    by (rule exI [of _ "n1 @ n2"]) (simp add: n1 n2)
qed

lemma index_root_count:
  "\<exists>new. db (index_root skip_types exclude_dirs include_files verbose t s) = db s @ new
         \<and> file_count (index_root skip_types exclude_dirs include_files verbose t s) =
             file_count s + length new"
proof (cases t)
  case (fields dirpath dirs files)
  show ?thesis
  proof (cases "\<exists>excl\<in>exclude_dirs. sublist excl dirpath")
    case True
    then show ?thesis by (simp add: fields index_root_def)
  next
    case False
    then show ?thesis
      using fold_index_file_count [of skip_types include_files dirpath files s]
        fold_index_file_count [of skip_types include_files dirpath files
          "s\<lparr>out := out s @ [''Scanning directory: '' @ dirpath]\<rparr>"]
      by (cases verbose) (simp_all add: fields index_root_def Let_def)
  qed
qed

lemma index_walk_count:
  "\<exists>new. db (index_walk skip_types exclude_dirs include_files verbose ts s) = db s @ new
         \<and> file_count (index_walk skip_types exclude_dirs include_files verbose ts s) =
             file_count s + length new"
  unfolding index_walk_def
proof (induction ts arbitrary: s)
  case Nil
  show ?case by simp
next
  case (Cons t ts)
  let ?s1 = "index_root skip_types exclude_dirs include_files verbose t s"
  obtain n1 where n1: "db ?s1 = db s @ n1" "file_count ?s1 = file_count s + length n1"
    using index_root_count by blast
  obtain n2 where n2:
    "db (fold (index_root skip_types exclude_dirs include_files verbose) ts ?s1) = db ?s1 @ n2"
    "file_count (fold (index_root skip_types exclude_dirs include_files verbose) ts ?s1) =
       file_count ?s1 + length n2"
    using Cons.IH by blast
  show ?case
    by (rule exI [of _ "n1 @ n2"]) (simp add: n1 n2)
qed

text \<open>
  C8, as the code has it. \<^verbatim>\<open>index_directory\<close> has no \<^verbatim>\<open>return\<close>: its value is
  \<^verbatim>\<open>None\<close>. The rows of the run are appended to the table, and their number is the
  count printed on the last line.
\<close>

theorem index_directory_prints_count:
  "\<exists>new. index_directory base_dir fs conn skip_types exclude_dirs include_files verbose =
           (PyNone, conn @ new,
            out (index_walk skip_types exclude_dirs include_files verbose (walk base_dir fs)
                   \<lparr>db = conn, out = [], file_count = 0\<rparr>)
            @ [''Total files processed: '' @ str_nat (length new)])"
proof -
  let ?s = "index_walk skip_types exclude_dirs include_files verbose (walk base_dir fs)
              \<lparr>db = conn, out = [], file_count = 0\<rparr>"
  obtain new where new: "db ?s = conn @ new" "file_count ?s = length new"
    using index_walk_count [of skip_types exclude_dirs include_files verbose "walk base_dir fs"
      "\<lparr>db = conn, out = [], file_count = 0\<rparr>"]
    by auto
  have "index_directory base_dir fs conn skip_types exclude_dirs include_files verbose =
          (PyNone, db ?s, out ?s @ [''Total files processed: '' @ str_nat (file_count ?s)])"
    by (simp add: index_directory_def Let_def)
  then show ?thesis
    unfolding new by (rule exI)
qed


lemma index_walk_one_file: "index_walk {} {} {} False
         (walk ''/d'' (Dir [\<lparr>fname = ''a.txt'', fread = Digest ''h1'', fstat = None\<rparr>] []))
         \<lparr>db = [], out = [], file_count = 0\<rparr>
       = \<lparr>db = [\<lparr>row_path = ''/d/a.txt'', row_hash = ''h1'', row_size = ''0B''\<rparr>], out = [],
          file_count = 1\<rparr>"
  by (simp add: index_walk_def index_root_def index_file_def hash_file_def truthy_def
      size_hr_of_def path_join_def suffix_to_prefix)

lemma str_nat_1: "str_nat (Suc 0) = ''1''"
  by (simp add: str_nat.simps digit_char_def)

theorem index_directory_prints_count_witness:
  "\<exists>new. index_directory ''/d''
       (Dir [\<lparr>fname = ''a.txt'', fread = Digest ''h1'', fstat = None\<rparr>] []) [] {} {} {} False
     = (PyNone, [] @ new, [] @ [''Total files processed: '' @ str_nat (length new)])"
  using index_directory_prints_count [of "''/d''"
      "Dir [\<lparr>fname = ''a.txt'', fread = Digest ''h1'', fstat = None\<rparr>] []" "[]" "{}" "{}" "{}" False]
  unfolding index_walk_one_file by simp

text \<open>
  The run below persists one row and prints the count 1; the value of the call is
  \<^verbatim>\<open>None\<close>, not the count.
\<close>

theorem index_directory_returns_count_counterexample:
  "index_directory ''/d''
       (Dir [\<lparr>fname = ''a.txt'', fread = Digest ''h1'', fstat = None\<rparr>] []) [] {} {} {} False
     = (PyNone, [\<lparr>row_path = ''/d/a.txt'', row_hash = ''h1'', row_size = ''0B''\<rparr>],
        [''Total files processed: 1''])
   \<and> fst (index_directory ''/d''
       (Dir [\<lparr>fname = ''a.txt'', fread = Digest ''h1'', fstat = None\<rparr>] []) [] {} {} {} False)
     \<noteq> PyInt 1"
  unfolding index_directory_def index_walk_one_file by (simp add: str_nat_1)

section \<open>Properties of the duplicate query: grouping\<close>

text \<open>
  C2. Without a threshold the query returns one group for each hash that at least two
  rows have and no other group. The group of a hash holds the paths of all the rows
  with that hash, in the order of their insertion: it is the string made of every path
  but the last, each followed by a newline, and then the last path.
\<close>

theorem find_duplicates_no_threshold:
  "\<exists>gs. find_duplicates conn None = Inr gs
      \<and> distinct (map fst gs)
      \<and> (\<forall>h g. (h, g) \<in> set gs \<longleftrightarrow>
            2 \<le> length (filter (\<lambda>r. row_hash r = h) conn)
            \<and> g = concat (map (\<lambda>p. p @ [CHR 0x0A])
                      (butlast (map row_path (filter (\<lambda>r. row_hash r = h) conn))))
                  @ last (map row_path (filter (\<lambda>r. row_hash r = h) conn)))"
proof -
  let ?ps = "\<lambda>h. map row_path (filter (\<lambda>r. row_hash r = h) conn)"
  have join: "join_with sep ps = concat (map (\<lambda>p. p @ sep) (butlast ps)) @ last ps"
    if "ps \<noteq> []" for sep ps
    using that by (induction sep ps rule: join_with.induct) simp_all
  have eq: "find_duplicates conn None = Inr (group_by_hash conn)"
    by (simp add: find_duplicates_def)
  have dist: "distinct (map fst (group_by_hash conn))"
    by (simp add: group_by_hash_def comp_def)
  have mem: "\<forall>h g. (h, g) \<in> set (group_by_hash conn) \<longleftrightarrow>
            2 \<le> length (filter (\<lambda>r. row_hash r = h) conn)
            \<and> g = concat (map (\<lambda>p. p @ [CHR 0x0A]) (butlast (?ps h))) @ last (?ps h)"
  proof (intro allI)
    fix h g
    have listed: "h \<in> set (map row_hash conn)"
      if "2 \<le> length (filter (\<lambda>r. row_hash r = h) conn)"
    proof -
      have "filter (\<lambda>r. row_hash r = h) conn \<noteq> []"
        using that by auto
      then show ?thesis
        by (auto simp: filter_empty_conv)
    qed
    have joined: "join_with [CHR 0x0A] (?ps h) =
            concat (map (\<lambda>p. p @ [CHR 0x0A]) (butlast (?ps h))) @ last (?ps h)"
      if "2 \<le> length (filter (\<lambda>r. row_hash r = h) conn)"
      using that by (intro join) auto
    show "(h, g) \<in> set (group_by_hash conn) \<longleftrightarrow>
            2 \<le> length (filter (\<lambda>r. row_hash r = h) conn)
            \<and> g = concat (map (\<lambda>p. p @ [CHR 0x0A]) (butlast (?ps h))) @ last (?ps h)"
      using listed joined by (auto simp: group_by_hash_def rows_of_hash_def)
  qed
  show ?thesis
    using eq dist mem by blast
qed

lemma find_duplicates_three_paths:
  "find_duplicates
      [\<lparr>row_path = ''/a'', row_hash = ''H1'', row_size = ''5M''\<rparr>,
       \<lparr>row_path = ''/b'', row_hash = ''H2'', row_size = ''1K''\<rparr>,
       \<lparr>row_path = ''/c'', row_hash = ''H1'', row_size = ''5M''\<rparr>,
       \<lparr>row_path = ''/d'', row_hash = ''H1'', row_size = ''5M''\<rparr>] None
   = Inr [(''H1'', ''/a'' @ [CHR 0x0A] @ ''/c'' @ [CHR 0x0A] @ ''/d'')]"
  by (simp add: find_duplicates_def group_by_hash_def rows_of_hash_def)

theorem find_duplicates_no_threshold_witness:
  "\<exists>gs. find_duplicates
          [\<lparr>row_path = ''/a'', row_hash = ''H1'', row_size = ''5M''\<rparr>,
           \<lparr>row_path = ''/b'', row_hash = ''H2'', row_size = ''1K''\<rparr>,
           \<lparr>row_path = ''/c'', row_hash = ''H1'', row_size = ''5M''\<rparr>,
           \<lparr>row_path = ''/d'', row_hash = ''H1'', row_size = ''5M''\<rparr>] None = Inr gs
      \<and> gs = [(''H1'', ''/a'' @ [CHR 0x0A] @ ''/c'' @ [CHR 0x0A] @ ''/d'')]
      \<and> distinct (map fst gs)
      \<and> (\<forall>h g. (h, g) \<in> set gs \<longleftrightarrow>
             h = ''H1'' \<and> g = ''/a'' @ [CHR 0x0A] @ ''/c'' @ [CHR 0x0A] @ ''/d'')"
proof -
  let ?rows = "[\<lparr>row_path = ''/a'', row_hash = ''H1'', row_size = ''5M''\<rparr>,
           \<lparr>row_path = ''/b'', row_hash = ''H2'', row_size = ''1K''\<rparr>,
           \<lparr>row_path = ''/c'', row_hash = ''H1'', row_size = ''5M''\<rparr>,
           \<lparr>row_path = ''/d'', row_hash = ''H1'', row_size = ''5M''\<rparr>]"
  let ?ps = "\<lambda>h. map row_path (filter (\<lambda>r. row_hash r = h) ?rows)"
  obtain gs where gs: "find_duplicates ?rows None = Inr gs" "distinct (map fst gs)"
    "\<forall>h g. (h, g) \<in> set gs \<longleftrightarrow>
            2 \<le> length (filter (\<lambda>r. row_hash r = h) ?rows)
            \<and> g = concat (map (\<lambda>p. p @ [CHR 0x0A]) (butlast (?ps h))) @ last (?ps h)"
    using find_duplicates_no_threshold [of ?rows] by blast
  have mem: "\<forall>h g. (h, g) \<in> set gs \<longleftrightarrow>
             h = ''H1'' \<and> g = ''/a'' @ [CHR 0x0A] @ ''/c'' @ [CHR 0x0A] @ ''/d''"
  proof (intro allI)
    fix h g
    show "(h, g) \<in> set gs \<longleftrightarrow>
             h = ''H1'' \<and> g = ''/a'' @ [CHR 0x0A] @ ''/c'' @ [CHR 0x0A] @ ''/d''"
      using gs(3) by (cases "h = ''H1''"; cases "h = ''H2''") auto
  qed
  have "gs = [(''H1'', ''/a'' @ [CHR 0x0A] @ ''/c'' @ [CHR 0x0A] @ ''/d'')]"
    using gs(1) find_duplicates_three_paths by simp
  with gs(1,2) mem show ?thesis by blast
qed

section \<open>Properties of the indexer: excluded directories\<close>

lemma sublist_path_join:
  assumes "sublist excl dir" and "CHR ''/'' \<notin> set name"
  shows "sublist excl (path_join dir name)"
proof -
  obtain ps ss where dir: "dir = ps @ excl @ ss"
    using assms(1) by (auto simp: sublist_def)
  have "\<not> prefix ''/'' name"
    using assms(2) by (auto simp: prefix_def)
  then have "path_join dir name = ps @ excl @ (ss @ name)
           \<or> path_join dir name = ps @ excl @ (ss @ ''/'' @ name)"
    by (simp add: path_join_def dir)
  then show ?thesis
    unfolding sublist_def by blast
qed

lemma walk_excluded:
  "wf_names d \<Longrightarrow> \<exists>excl\<in>exclude_dirs. sublist excl dir \<Longrightarrow>
   \<forall>t\<in>set (walk dir d). \<exists>excl\<in>exclude_dirs. sublist excl (fst t)"
proof (induction dir d rule: walk.induct)
  case (1 dir)
  show ?case by simp
next
  case (2 dir files subdirs)
  have "\<exists>excl\<in>exclude_dirs. sublist excl (fst t)"
    if "t \<in> set (walk (path_join dir name) sub)" and "(name, sub) \<in> set subdirs"
    for t name sub
  proof -
    have wf: "CHR ''/'' \<notin> set name" "wf_names sub"
      using "2.prems"(1) that(2) by (auto simp: list_all_iff)
    have "\<exists>excl\<in>exclude_dirs. sublist excl (path_join dir name)"
      using "2.prems"(2) wf(1) sublist_path_join by blast
    then show ?thesis
      using "2.IH" [OF that(2) refl wf(2)] that(1) by blast
  qed
  then show ?case
    using "2.prems"(2) by auto
qed

lemma index_walk_append:
  "index_walk skip_types exclude_dirs include_files verbose (ts @ us) s =
   index_walk skip_types exclude_dirs include_files verbose us
     (index_walk skip_types exclude_dirs include_files verbose ts s)"
  by (simp add: index_walk_def)

lemma index_walk_all_excluded:
  "\<forall>t\<in>set ts. \<exists>excl\<in>exclude_dirs. sublist excl (fst t) \<Longrightarrow>
   index_walk skip_types exclude_dirs include_files verbose ts s = s"
  unfolding index_walk_def
  by (induction ts arbitrary: s) (auto simp: index_root_def)

lemma walk_segment:
  "(r, d) \<in> set (dirs_of dir t) \<Longrightarrow> \<exists>pre post. walk dir t = pre @ walk r d @ post"
proof (induction dir t rule: walk.induct)
  case (1 dir)
  then show ?case by simp
next
  case (2 dir files subdirs)
  show ?case
  proof (cases "(r, d) = (dir, Dir files subdirs)")
    case True
    then have "walk dir (Dir files subdirs) = [] @ walk r d @ []" by simp
    then show ?thesis by blast
  next
    case False
    then obtain name sub where sub: "(name, sub) \<in> set subdirs"
      "(r, d) \<in> set (dirs_of (path_join dir name) sub)"
      using "2.prems" by auto
    obtain pre post where seg: "walk (path_join dir name) sub = pre @ walk r d @ post"
      using "2.IH" [OF sub(1) refl sub(2)] by blast
    obtain xs ys where split: "subdirs = xs @ (name, sub) # ys"
      using sub(1) by (auto dest: split_list)
    let ?w = "\<lambda>(name, d). walk (path_join dir name) d"
    have "walk dir (Dir files subdirs) =
            ((dir, map fst subdirs, files) # concat (map ?w xs) @ pre) @ walk r d @
            (post @ concat (map ?w ys))"
      by (simp add: split seg)
    then show ?thesis by blast
  qed
qed

text \<open>
  C3. Take any directory \<open>d\<close> of the tree, reached under the path \<open>r\<close>, such that
  some exclude string occurs in \<open>r\<close>. The triples that \<^verbatim>\<open>os.walk\<close> yields for
  \<open>d\<close> and everything below it form one segment of the walk, and the loop leaves
  every state unchanged over that segment: no file in it is hashed, inserted, counted or
  reported, for every include set and every skip set. The test is on the whole path
  \<open>r\<close> and by substring.
\<close>

theorem excluded_directory_never_indexed:
  assumes "(r, d) \<in> set (dirs_of base_dir fs)" and "wf_names d"
    and "\<exists>excl\<in>exclude_dirs. sublist excl r"
  shows "\<exists>pre post. walk base_dir fs = pre @ walk r d @ post
       \<and> (\<forall>s. index_walk skip_types exclude_dirs include_files verbose (walk r d) s = s)
       \<and> index_walk skip_types exclude_dirs include_files verbose (walk base_dir fs) s0 =
           index_walk skip_types exclude_dirs include_files verbose post
             (index_walk skip_types exclude_dirs include_files verbose pre s0)"
proof -
  obtain pre post where seg: "walk base_dir fs = pre @ walk r d @ post"
    using walk_segment [OF assms(1)] by blast
  have noop: "index_walk skip_types exclude_dirs include_files verbose (walk r d) s = s" for s
    using index_walk_all_excluded [OF walk_excluded [OF assms(2,3)]] by blast
  have "index_walk skip_types exclude_dirs include_files verbose (walk base_dir fs) s0 =
           index_walk skip_types exclude_dirs include_files verbose post
             (index_walk skip_types exclude_dirs include_files verbose pre s0)"
    by (simp add: seg index_walk_append noop)
  with seg noop show ?thesis by blast
qed

theorem excluded_directory_never_indexed_witness:
  "(''/proj/my_venv'', Dir [\<lparr>fname = ''x.txt'', fread = Digest ''h1'', fstat = Some 5\<rparr>] [])
     \<in> set (dirs_of ''/proj''
         (Dir [] [(''my_venv'',
                    Dir [\<lparr>fname = ''x.txt'', fread = Digest ''h1'', fstat = Some 5\<rparr>] []),
                  (''venv2'', Dir [] [])]))
   \<and> wf_names (Dir [\<lparr>fname = ''x.txt'', fread = Digest ''h1'', fstat = Some 5\<rparr>] [])
   \<and> (\<exists>excl\<in>{''venv''}. sublist excl ''/proj/my_venv'')
   \<and> (\<exists>excl\<in>{''venv''}. sublist excl ''/proj/venv2'')
   \<and> (\<forall>s. index_walk {} {''venv''} {''/proj/my_venv/x.txt''} False
            (walk ''/proj/my_venv''
               (Dir [\<lparr>fname = ''x.txt'', fread = Digest ''h1'', fstat = Some 5\<rparr>] [])) s = s)"
proof -
  let ?d = "Dir [\<lparr>fname = ''x.txt'', fread = Digest ''h1'', fstat = Some 5\<rparr>] []"
  let ?t = "Dir [] [(''my_venv'', ?d), (''venv2'', Dir [] [])]"
  have at: "(''/proj/my_venv'', ?d) \<in> set (dirs_of ''/proj'' ?t)"
    by (simp add: path_join_def suffix_to_prefix)
  have wf: "wf_names ?d"
    by simp
  have ex: "\<exists>excl\<in>{''venv''}. sublist excl ''/proj/my_venv''"
    by (simp add: sublist_code)
  have ex2: "\<exists>excl\<in>{''venv''}. sublist excl ''/proj/venv2''"
    by (simp add: sublist_code)
  have "\<forall>s. index_walk {} {''venv''} {''/proj/my_venv/x.txt''} False
            (walk ''/proj/my_venv'' ?d) s = s"
    using excluded_directory_never_indexed [OF at wf ex] by blast
  with at wf ex ex2 show ?thesis by blast
qed

section \<open>Properties of the size codec: digits and rounding\<close>

lemma digit_cases:
  "d < 10 \<Longrightarrow> d = 0 \<or> d = 1 \<or> d = 2 \<or> d = 3 \<or> d = 4 \<or> d = 5 \<or> d = 6 \<or> d = 7 \<or> d = 8 \<or> d = (9::nat)"
  by arith

lemma digit_char_props:
  assumes "d < 10"
  shows "is_digit (digit_char d)" and "digit_val (digit_char d) = d"
    and "upper_char (digit_char d) = digit_char d"
proof -
  note d = digit_cases [OF assms]
  from d show "is_digit (digit_char d)"
    by (elim disjE) (simp_all add: digit_char_def is_digit_def)
  from d show "digit_val (digit_char d) = d"
    by (elim disjE) (simp_all add: digit_char_def digit_val_def)
  from d show "upper_char (digit_char d) = digit_char d"
    by (elim disjE) (simp_all add: digit_char_def upper_char_def)
qed

lemma nat_of_digits_snoc:
  "nat_of_digits (ds @ [c]) = 10 * nat_of_digits ds + digit_val c"
  by (simp add: nat_of_digits_def)

lemma str_nat_props:
  "all_digits (str_nat n) \<and> nat_of_digits (str_nat n) = n \<and> upper (str_nat n) = str_nat n
   \<and> str_nat n \<noteq> []"
proof (induction n rule: str_nat.induct)
  case (1 n)
  show ?case
  proof (cases "n < 10")
    case True
    then show ?thesis
      by (simp add: str_nat.simps [of n] all_digits_def upper_def digit_char_props
          nat_of_digits_def)
  next
    case False
    have "n mod 10 < 10" by simp
    then show ?thesis
      using False "1.IH"
      by (simp add: str_nat.simps [of n] all_digits_def upper_def digit_char_props
          nat_of_digits_snoc)
  qed
qed

lemma bit_length_le: "n < 2 ^ k \<Longrightarrow> bit_length n \<le> k"
proof (induction k arbitrary: n)
  case 0
  then show ?case by (simp add: bit_length.simps)
next
  case (Suc k)
  show ?case
  proof (cases "n = 0")
    case True
    then show ?thesis by (simp add: bit_length.simps)
  next
    case False
    have "n div 2 < 2 ^ k" using Suc.prems by simp
    then have "bit_length (n div 2) \<le> k" by (rule Suc.IH)
    then show ?thesis using False by (simp add: bit_length.simps [of n])
  qed
qed

lemma to_double_nat_exact: "n < 2 ^ 53 \<Longrightarrow> to_double_nat n = n"
  using bit_length_le [of n 53] by (simp add: to_double_nat_def)

lemma to_double_nat_near:
  assumes "n < 2 ^ 64"
  shows "to_double_nat n \<le> n + 2048" and "n \<le> to_double_nat n + 2048"
proof -
  define s where "s = bit_length n - 53"
  define P where "P = (2::nat) ^ s"
  define q where "q = n div P"
  define r where "r = n mod P"
  have "bit_length n \<le> 64" using assms by (rule bit_length_le)
  then have "s \<le> 11" by (simp add: s_def)
  then have "(2::nat) ^ s \<le> 2 ^ 11" by (rule power_increasing) simp
  then have p: "P \<le> 2048" by (simp add: P_def)
  have r: "r < P" by (simp add: r_def P_def)
  have n: "n = q * P + r"
    unfolding q_def r_def by (rule div_mult_mod_eq [symmetric])
  have "to_double_nat n = (n div 2 ^ s) * 2 ^ s \<or> to_double_nat n = (n div 2 ^ s + 1) * 2 ^ s"
    by (simp add: to_double_nat_def s_def Let_def)
  then have d: "to_double_nat n = q * P \<or> to_double_nat n = q * P + P"
    by (auto simp: q_def P_def)
  show "to_double_nat n \<le> n + 2048"
    using d n p r by linarith
  show "n \<le> to_double_nat n + 2048"
    using d n p r by linarith
qed

lemma bit_length_upper: "n < 2 ^ bit_length n"
proof (induction n rule: bit_length.induct)
  case (1 n)
  show ?case
  proof (cases "n = 0")
    case True
    then show ?thesis by (simp add: bit_length.simps)
  next
    case False
    have "n div 2 < 2 ^ bit_length (n div 2)"
      using False by (rule "1.IH")
    then have "n < 2 * 2 ^ bit_length (n div 2)"
      by linarith
    then show ?thesis
      using False by (simp add: bit_length.simps [of n])
  qed
qed

lemma bit_length_lower: "0 < n \<Longrightarrow> 2 ^ (bit_length n - 1) \<le> n"
proof (induction n rule: bit_length.induct)
  case (1 n)
  then have n: "n \<noteq> 0" by simp
  show ?case
  proof (cases "n div 2 = 0")
    case True
    then show ?thesis
      using n by (simp add: bit_length.simps [of n] bit_length.simps [of 0])
  next
    case False
    then have "2 ^ (bit_length (n div 2) - 1) \<le> n div 2"
      using "1.IH" [OF n] by simp
    moreover have "bit_length (n div 2) = Suc (bit_length (n div 2) - 1)"
      using False by (simp add: bit_length.simps [of "n div 2"])
    ultimately have "2 ^ bit_length (n div 2) \<le> 2 * (n div 2)"
      by (metis mult_le_mono2 power_Suc)
    then have "2 ^ bit_length (n div 2) \<le> n"
      by linarith
    then show ?thesis
      using n by (simp add: bit_length.simps [of n])
  qed
qed

lemma bit_length_eq:
  assumes "2 ^ k \<le> n" and "n < 2 ^ Suc k"
  shows "bit_length n = Suc k"
proof -
  have "bit_length n \<le> Suc k"
    using assms(2) by (rule bit_length_le)
  moreover have "(2::nat) ^ k < 2 ^ bit_length n"
    using assms(1) bit_length_upper [of n] by linarith
  then have "k < bit_length n"
    by simp
  ultimately show ?thesis by simp
qed

lemma to_double_nat_lower:
  assumes "2 ^ k \<le> n"
  shows "2 ^ k \<le> to_double_nat n"
proof (cases "n < 2 ^ 53")
  case True
  then show ?thesis using assms by (simp add: to_double_nat_exact)
next
  case False
  define s where "s = bit_length n - 53"
  define P where "P = (2::nat) ^ s"
  define q where "q = n div P"
  have "\<not> bit_length n \<le> 53"
  proof
    assume "bit_length n \<le> 53"
    then have "(2::nat) ^ bit_length n \<le> 2 ^ 53"
      by (intro power_increasing) simp_all
    then show False
      using bit_length_upper [of n] False by linarith
  qed
  then have bl: "bit_length n - 1 = s + 52"
    by (simp add: s_def)
  have "0 < n" using False by simp
  then have "2 ^ (bit_length n - 1) \<le> n"
    by (rule bit_length_lower)
  then have "2 ^ (s + 52) \<le> n"
    by (simp only: bl)
  then have "2 ^ 52 * P \<le> n"
    by (simp add: P_def power_add mult.commute)
  then have "2 ^ 52 * P div P \<le> n div P"
    by (rule div_le_mono)
  then have q: "2 ^ 52 \<le> q"
    by (simp add: q_def P_def)
  have qP: "2 ^ k \<le> q * P"
  proof (cases "s \<le> k")
    case True
    then have "(2::nat) ^ k = 2 ^ (k - s) * P"
      by (simp add: P_def power_add [symmetric])
    then have "2 ^ (k - s) * P div P \<le> n div P"
      using assms by (intro div_le_mono) simp
    then have "2 ^ (k - s) \<le> q"
      by (simp add: q_def P_def)
    then have "2 ^ (k - s) * P \<le> q * P"
      by (rule mult_le_mono1)
    then show ?thesis
      using \<open>2 ^ k = 2 ^ (k - s) * P\<close> by simp
  next
    case False
    then have "(2::nat) ^ k \<le> P"
      unfolding P_def by (intro power_increasing) simp_all
    moreover have "1 \<le> q"
      using q by simp
    then have "1 * P \<le> q * P"
      by (rule mult_le_mono1)
    then have "P \<le> q * P"
      by (simp only: mult_1)
    ultimately show ?thesis by (rule order_trans)
  qed
  have "to_double_nat n = (n div 2 ^ s) * 2 ^ s \<or> to_double_nat n = (n div 2 ^ s + 1) * 2 ^ s"
    by (simp add: to_double_nat_def s_def Let_def)
  then have "to_double_nat n = q * P \<or> to_double_nat n = q * P + P"
    by (auto simp: q_def P_def)
  then show ?thesis
    using qP by linarith
qed

lemma to_double_nat_upper:
  assumes "n \<le> 2 ^ k"
  shows "to_double_nat n \<le> 2 ^ k"
proof (cases "n < 2 ^ 53")
  case True
  then show ?thesis using assms by (simp add: to_double_nat_exact)
next
  case False
  define s where "s = bit_length n - 53"
  define P where "P = (2::nat) ^ s"
  define q where "q = n div P"
  define r where "r = n mod P"
  have "\<not> bit_length n \<le> 53"
  proof
    assume "bit_length n \<le> 53"
    then have "(2::nat) ^ bit_length n \<le> 2 ^ 53"
      by (intro power_increasing) simp_all
    then show False
      using bit_length_upper [of n] False by linarith
  qed
  then have bl: "bit_length n - 1 = s + 52"
    by (simp add: s_def)
  have "0 < n" using False by simp
  then have "2 ^ (bit_length n - 1) \<le> n"
    by (rule bit_length_lower)
  then have "2 ^ (s + 52) \<le> n"
    by (simp only: bl)
  then have "(2::nat) ^ (s + 52) \<le> 2 ^ k"
    using assms by linarith
  then have "s + 52 \<le> k"
    by simp
  then have sk: "s \<le> k"
    by simp
  then have pk: "(2::nat) ^ k = 2 ^ (k - s) * P"
    by (simp add: P_def power_add [symmetric])
  have n: "n = q * P + r"
    unfolding q_def r_def by (rule div_mult_mod_eq [symmetric])
  have "to_double_nat n =
          (if 2 ^ s < 2 * (n mod 2 ^ s) \<or> (2 * (n mod 2 ^ s) = 2 ^ s \<and> odd (n div 2 ^ s))
           then (n div 2 ^ s + 1) * 2 ^ s else n div 2 ^ s * 2 ^ s)"
    by (simp add: to_double_nat_def s_def Let_def)
  moreover have "0 < x" if "2 * x = 2 ^ s" for x :: nat
    using that by (intro gr0I) simp
  ultimately have d: "to_double_nat n = q * P \<or> (0 < r \<and> to_double_nat n = q * P + P)"
    by (auto simp: q_def P_def r_def split: if_splits)
  show ?thesis
  proof (cases "to_double_nat n = q * P")
    case True
    then show ?thesis using n assms by linarith
  next
    case False
    then have r: "0 < r" and up: "to_double_nat n = q * P + P"
      using d by auto
    have "q * P < 2 ^ (k - s) * P"
      using n r assms pk by linarith
    then have "q < 2 ^ (k - s)"
      by simp
    then have "q + 1 \<le> 2 ^ (k - s)"
      by simp
    then have "(q + 1) * P \<le> 2 ^ (k - s) * P"
      by (rule mult_le_mono1)
    then show ?thesis
      using up pk by simp
  qed
qed

lemma round_half_even_near: "2 * \<bar>of_int (round_half_even x) - x\<bar> \<le> 1"
proof -
  have "of_int \<lfloor>x\<rfloor> \<le> x" "x < of_int \<lfloor>x\<rfloor> + 1" by linarith+
  then show ?thesis
    by (auto simp: round_half_even_def Let_def)
qed

lemma round_half_even_nonneg: "0 \<le> x \<Longrightarrow> 0 \<le> round_half_even x"
  by (auto simp: round_half_even_def Let_def)

lemma round_half_even_of_nat: "round_half_even (of_nat n) = int n"
  by (simp add: round_half_even_def Let_def)

lemma fmt0_of_nat: "fmt0 (of_nat n) = str_nat n"
  by (simp add: fmt0_def round_half_even_of_nat)

section \<open>Properties of the size codec: the encoder\<close>

lemma scale_loop_spec:
  "scale_loop x us =
     fmt0 (x / 1024 ^ spec_scale (length us) x) @ [(us @ ''P'') ! spec_scale (length us) x]"
proof (induction us arbitrary: x)
  case Nil
  show ?case by simp
next
  case (Cons u us)
  show ?case
  proof (cases "x < 1024")
    case True
    then show ?thesis by simp
  next
    case False
    then show ?thesis
      using Cons.IH [of "x / 1024"] by (simp add: field_simps)
  qed
qed

lemma scale_loop_large:
  "1024 ^ length us \<le> x \<Longrightarrow> scale_loop x us = fmt0 (x / 1024 ^ length us) @ ''P''"
proof (induction us arbitrary: x)
  case Nil
  show ?case by simp
next
  case (Cons u us)
  have "(1024::rat) \<le> 1024 ^ length (u # us)"
    by (simp add: self_le_power)
  then have big: "\<not> x < 1024" using Cons.prems by linarith
  have "1024 ^ length us \<le> x / 1024"
    using Cons.prems by (simp add: field_simps)
  then show ?case
    using big Cons.IH [of "x / 1024"] by (simp add: field_simps)
qed

lemma spec_scale_5:
  "spec_scale 5 x = (if x < 1024 then 0 else Suc (spec_scale 4 (x / 1024)))"
  using spec_scale.simps(2) [of 4 x] by simp

lemma of_nat_less_1024: "(of_nat n :: rat) < 1024 \<longleftrightarrow> n < 1024"
  using of_nat_less_iff [of n 1024, where 'a = rat] by simp

lemma human_readable_size_exact:
  assumes "n < 2 ^ 53"
  shows "human_readable_size n =
           Inr (fmt0 (of_nat n / 1024 ^ spec_scale_steps n) @ [''BKMGTP'' ! spec_scale_steps n])"
proof (cases "n < 1024")
  case True
  then show ?thesis
    by (simp add: human_readable_size_def spec_scale_steps_def spec_scale_5 of_nat_less_1024)
next
  case False
  have d: "true_div_1024 n = of_nat n / 1024"
    by (simp add: true_div_1024_def to_double_nat_exact [OF assms])
  have "(of_nat n :: rat) < of_nat (2 ^ 53)"
    using assms by (simp only: of_nat_less_iff)
  then have "(of_nat n :: rat) < 2 ^ 1024 * 1024"
    by simp
  then have ok: "\<not> 2 ^ 1024 \<le> true_div_1024 n"
    by (simp add: d field_simps)
  define j where "j = spec_scale 4 (of_nat n / 1024)"
  have len: "length ''KMGT'' = 4" and app: "''KMGT'' @ ''P'' = ''KMGTP''"
    by simp_all
  have loop: "scale_loop (of_nat n / 1024) ''KMGT'' =
                fmt0 (of_nat n / 1024 / 1024 ^ j) @ [''KMGTP'' ! j]"
    unfolding j_def
    using scale_loop_spec [of "of_nat n / 1024" "''KMGT''"] by (simp only: len app)
  have steps: "spec_scale_steps n = Suc j"
    using False by (simp add: spec_scale_steps_def spec_scale_5 of_nat_less_1024 j_def
        del: spec_scale.simps)
  have enc: "human_readable_size n = Inr (scale_loop (of_nat n / 1024) ''KMGT'')"
    using False ok by (simp add: human_readable_size_def d del: scale_loop.simps)
  have "of_nat n / 1024 / 1024 ^ j = (of_nat n :: rat) / 1024 ^ Suc j"
    by simp
  moreover have "''KMGTP'' ! j = ''BKMGTP'' ! Suc j"
    by simp
  ultimately show ?thesis
    unfolding enc loop steps by (simp only:)
qed

lemma to_double_nat_peta:
  assumes "1024 ^ 5 \<le> n" and "n < 2 ^ 64"
  shows "1024 ^ 5 \<le> to_double_nat n" and "to_double_nat n < 2 ^ 65"
proof -
  show "1024 ^ 5 \<le> to_double_nat n"
  proof (cases "n < 2 ^ 53")
    case True
    then show ?thesis using assms(1) by (simp add: to_double_nat_exact)
  next
    case False
    then show ?thesis using to_double_nat_near(2) [OF assms(2)] by simp
  qed
  show "to_double_nat n < 2 ^ 65"
    using to_double_nat_near(1) [OF assms(2)] assms(2) by simp
qed

lemma human_readable_size_peta:
  assumes "1024 ^ 5 \<le> n" and "n < 2 ^ 64"
  shows "human_readable_size n = Inr (fmt0 (of_nat (to_double_nat n) / 1024 ^ 5) @ ''P'')"
proof -
  define D where "D = to_double_nat n"
  have lo: "1024 ^ 5 \<le> D" and hi: "D < 2 ^ 65"
    unfolding D_def using to_double_nat_peta [OF assms] by simp_all
  have "(of_nat (1024 ^ 5) :: rat) \<le> of_nat D"
    using lo by (simp only: of_nat_le_iff)
  then have lo': "(1024 ^ 5 :: rat) \<le> of_nat D"
    by simp
  have "(of_nat D :: rat) < of_nat (2 ^ 65)"
    using hi by (simp only: of_nat_less_iff)
  then have hi': "(of_nat D :: rat) < 2 ^ 1024 * 1024"
    by simp
  have d: "true_div_1024 n = of_nat D / 1024"
    by (simp add: true_div_1024_def D_def)
  have ok: "\<not> 2 ^ 1024 \<le> true_div_1024 n"
    using hi' by (simp add: d field_simps)
  have len: "length ''KMGT'' = 4"
    by simp
  have "(1024 ^ 4 :: rat) \<le> of_nat D / 1024"
    using lo' by (simp add: field_simps)
  then have loop: "scale_loop (of_nat D / 1024) ''KMGT'' =
                     fmt0 (of_nat D / 1024 / 1024 ^ 4) @ ''P''"
    using scale_loop_large [of "''KMGT''" "of_nat D / 1024"] by (simp only: len)
  have big: "\<not> n < 1024"
    using assms(1) by simp
  have enc: "human_readable_size n = Inr (scale_loop (of_nat D / 1024) ''KMGT'')"
    using big ok by (simp add: human_readable_size_def d del: scale_loop.simps)
  have "of_nat D / 1024 / 1024 ^ 4 = (of_nat D :: rat) / 1024 ^ 5"
    by simp
  then have "human_readable_size n = Inr (fmt0 (of_nat D / 1024 ^ 5) @ ''P'')"
    by (simp only: enc loop)
  then show ?thesis
    by (simp only: D_def)
qed

lemma spec_scale_le: "spec_scale u x \<le> u"
  by (induction u arbitrary: x) simp_all

lemma spec_scale_below:
  "spec_scale u x < u \<Longrightarrow> x / 1024 ^ spec_scale u x < 1024"
proof (induction u arbitrary: x)
  case 0
  then show ?case by simp
next
  case (Suc u)
  show ?case
  proof (cases "x < 1024")
    case True
    then show ?thesis by simp
  next
    case False
    then have "spec_scale u (x / 1024) < u"
      using Suc.prems by simp
    then have "x / 1024 / 1024 ^ spec_scale u (x / 1024) < 1024"
      by (rule Suc.IH)
    then show ?thesis using False by simp
  qed
qed

lemma spec_scale_full: "spec_scale u x = u \<longleftrightarrow> u = 0 \<or> 1024 ^ u \<le> x"
proof (induction u arbitrary: x)
  case 0
  show ?case by simp
next
  case (Suc u)
  show ?case
  proof (cases "x < 1024")
    case True
    have "(1024::rat) \<le> 1024 ^ Suc u"
      by (rule self_le_power) simp_all
    then have "\<not> 1024 ^ Suc u \<le> x" using True by linarith
    then show ?thesis using True by simp
  next
    case False
    have "spec_scale (Suc u) x = Suc u \<longleftrightarrow> spec_scale u (x / 1024) = u"
      using False by simp
    also have "\<dots> \<longleftrightarrow> u = 0 \<or> 1024 ^ u \<le> x / 1024"
      by (rule Suc.IH)
    also have "\<dots> \<longleftrightarrow> 1024 ^ Suc u \<le> x"
      using False by (cases "u = 0") (simp_all add: field_simps)
    finally show ?thesis by simp
  qed
qed

lemma spec_scale_steps_peta: "spec_scale_steps n = 5 \<longleftrightarrow> 1024 ^ 5 \<le> n"
proof -
  have "spec_scale_steps n = 5 \<longleftrightarrow> (of_nat (1024 ^ 5) :: rat) \<le> of_nat n"
    using spec_scale_full [of 5 "of_nat n"] by (simp add: spec_scale_steps_def del: spec_scale.simps)
  then show ?thesis
    by (simp only: of_nat_le_iff)
qed

lemma str_nat_1023: "str_nat 1023 = ''1023''"
  by (simp add: str_nat.simps digit_char_def)

lemma human_readable_size_1023: "human_readable_size 1023 = Inr ''1023B''"
  by (simp add: human_readable_size_def fmt0_of_nat [of 1023, simplified] str_nat_1023)

lemma fmt0_1: "fmt0 1 = ''1''"
  using fmt0_of_nat [of 1] by (simp add: str_nat_1)

lemma human_readable_size_1024: "human_readable_size 1024 = Inr ''1K''"
  by (simp add: human_readable_size_def true_div_1024_def to_double_nat_exact fmt0_1)

lemma human_readable_size_1P: "human_readable_size (1024 ^ 5) = Inr ''1P''"
  by (simp add: human_readable_size_def true_div_1024_def to_double_nat_exact fmt0_1)

lemma human_readable_size_any:
  assumes "to_double_nat n < 2 ^ 1034"
  shows "human_readable_size n =
           Inr (fmt0 (of_nat (to_double_nat n) / 1024 ^ spec_scale_steps n)
                @ [''BKMGTP'' ! spec_scale_steps n])"
proof (cases "n < 2 ^ 53")
  case True
  then show ?thesis
    using human_readable_size_exact [OF True] by (simp add: to_double_nat_exact)
next
  case False
  define D where "D = to_double_nat n"
  have big: "1024 ^ 5 \<le> n"
    using False by simp
  have steps: "spec_scale_steps n = 5"
    using big by (simp only: spec_scale_steps_peta)
  have "2 ^ 50 \<le> n"
    using False by simp
  then have "2 ^ 50 \<le> D"
    unfolding D_def by (rule to_double_nat_lower)
  then have "(of_nat (2 ^ 50) :: rat) \<le> of_nat D"
    by (simp only: of_nat_le_iff)
  then have lo: "(1024 ^ 5 :: rat) \<le> of_nat D"
    by simp
  have "(of_nat D :: rat) < of_nat (2 ^ 1034)"
    using assms unfolding D_def by (simp only: of_nat_less_iff)
  then have hi: "(of_nat D :: rat) < 2 ^ 1024 * 1024"
    by simp
  have d: "true_div_1024 n = of_nat D / 1024"
    by (simp add: true_div_1024_def D_def)
  have ok: "\<not> 2 ^ 1024 \<le> true_div_1024 n"
    using hi by (simp add: d field_simps)
  have len: "length ''KMGT'' = 4"
    by simp
  have "(1024 ^ 4 :: rat) \<le> of_nat D / 1024"
    using lo by (simp add: field_simps)
  then have loop: "scale_loop (of_nat D / 1024) ''KMGT'' =
                     fmt0 (of_nat D / 1024 / 1024 ^ 4) @ ''P''"
    using scale_loop_large [of "''KMGT''" "of_nat D / 1024"] by (simp only: len)
  have notsmall: "\<not> n < 1024"
    using big by simp
  have enc: "human_readable_size n = Inr (scale_loop (of_nat D / 1024) ''KMGT'')"
    using notsmall ok by (simp add: human_readable_size_def d del: scale_loop.simps)
  have "of_nat D / 1024 / 1024 ^ 4 = (of_nat D :: rat) / 1024 ^ 5"
    by simp
  then have "human_readable_size n = Inr (fmt0 (of_nat D / 1024 ^ 5) @ ''P'')"
    by (simp only: enc loop)
  then show ?thesis
    by (simp add: D_def steps)
qed

lemma human_readable_size_overflow:
  assumes "2 ^ 1034 \<le> n"
  shows "human_readable_size n = Inl OverflowError"
proof -
  have "2 ^ 1034 \<le> to_double_nat n"
    using assms by (rule to_double_nat_lower)
  then have "(of_nat (2 ^ 1034) :: rat) \<le> of_nat (to_double_nat n)"
    by (simp only: of_nat_le_iff)
  then have "(2 ^ 1024 * 1024 :: rat) \<le> of_nat (to_double_nat n)"
    by simp
  then have over: "2 ^ 1024 \<le> true_div_1024 n"
    by (simp add: true_div_1024_def field_simps)
  have "\<not> n < 1024"
    using assms by simp
  then show ?thesis
    using over by (simp add: human_readable_size_def)
qed

lemma to_double_nat_in_range:
  assumes "n \<le> 2 ^ 1033"
  shows "to_double_nat n < 2 ^ 1034"
proof -
  have "to_double_nat n \<le> 2 ^ 1033"
    using assms by (rule to_double_nat_upper)
  then show ?thesis by simp
qed

lemma spec_scale_numeral:
  "spec_scale (numeral k) x =
     (if x < 1024 then 0 else Suc (spec_scale (pred_numeral k) (x / 1024)))"
  using spec_scale.simps(2) [of "pred_numeral k" x] by (simp only: numeral_eq_Suc)

text \<open>
  C5, as the code has it. The first division is a division of integers with a double
  as its result, so the value that the loop scales is the double nearest to the byte
  count, which is the byte count itself below \<open>2 ^ 53\<close>. As long as that double is
  below \<open>2 ^ 1034\<close>, which holds up to \<open>2 ^ 1033\<close> bytes, the encoder returns
  it divided by 1024 as many times as the specification says, rounded to an integer by
  the format, followed by the unit with that index in B, K, M, G, T, P; from
  \<open>1024 ^ 5\<close> bytes on the index is 5, the unit P. From \<open>2 ^ 1034\<close> bytes on
  the division raises OverflowError and nothing is returned. The three boundary values
  are as stated, and the format rounds a half to the even neighbour: 2560 bytes, two and
  a half units, are \<^verbatim>\<open>2K\<close>, and 3584 bytes, three and a half units, are \<^verbatim>\<open>4K\<close>.
\<close>

theorem human_readable_size_scaling:
  "(to_double_nat n < 2 ^ 1034 \<longrightarrow>
      human_readable_size n =
        Inr (fmt0 (of_nat (to_double_nat n) / 1024 ^ spec_scale_steps n)
             @ [''BKMGTP'' ! spec_scale_steps n]))
   \<and> (n < 2 ^ 53 \<longrightarrow>
        to_double_nat n = n
        \<and> human_readable_size n =
            Inr (fmt0 (of_nat n / 1024 ^ spec_scale_steps n) @ [''BKMGTP'' ! spec_scale_steps n]))
   \<and> (n \<le> 2 ^ 1033 \<longrightarrow> to_double_nat n < 2 ^ 1034)
   \<and> spec_scale_steps n \<le> 5
   \<and> (spec_scale_steps n = 5 \<longleftrightarrow> 1024 ^ 5 \<le> n)
   \<and> (spec_scale_steps n < 5 \<longrightarrow> of_nat n / 1024 ^ spec_scale_steps n < (1024 :: rat))
   \<and> (2 ^ 1034 \<le> n \<longrightarrow> human_readable_size n = Inl OverflowError)
   \<and> human_readable_size 1023 = Inr ''1023B''
   \<and> human_readable_size 1024 = Inr ''1K''
   \<and> human_readable_size (1024 ^ 5) = Inr ''1P''
   \<and> human_readable_size 2560 = Inr ''2K''
   \<and> human_readable_size 3584 = Inr ''4K''"
proof -
  have a: "to_double_nat n < 2 ^ 1034 \<longrightarrow>
      human_readable_size n =
        Inr (fmt0 (of_nat (to_double_nat n) / 1024 ^ spec_scale_steps n)
             @ [''BKMGTP'' ! spec_scale_steps n])"
    using human_readable_size_any by blast
  have b: "n < 2 ^ 53 \<longrightarrow>
        to_double_nat n = n
        \<and> human_readable_size n =
            Inr (fmt0 (of_nat n / 1024 ^ spec_scale_steps n) @ [''BKMGTP'' ! spec_scale_steps n])"
    using human_readable_size_exact to_double_nat_exact by blast
  have c: "n \<le> 2 ^ 1033 \<longrightarrow> to_double_nat n < 2 ^ 1034"
    using to_double_nat_in_range by blast
  have d: "spec_scale_steps n \<le> 5"
    unfolding spec_scale_steps_def by (rule spec_scale_le)
  have e: "spec_scale_steps n = 5 \<longleftrightarrow> 1024 ^ 5 \<le> n"
    by (rule spec_scale_steps_peta)
  have f: "spec_scale_steps n < 5 \<longrightarrow> of_nat n / 1024 ^ spec_scale_steps n < (1024 :: rat)"
    unfolding spec_scale_steps_def using spec_scale_below [of 5 "of_nat n"] by blast
  have g: "2 ^ 1034 \<le> n \<longrightarrow> human_readable_size n = Inl OverflowError"
    using human_readable_size_overflow by blast
  have h: "human_readable_size 2560 = Inr ''2K''"
  proof -
    have steps: "spec_scale_steps 2560 = 1"
      by (simp add: spec_scale_steps_def spec_scale_numeral)
    have "\<lfloor>2560 / 1024 :: rat\<rfloor> = 2"
      by (simp add: floor_eq_iff)
    then have "round_half_even (2560 / 1024) = 2"
      by (simp add: round_half_even_def Let_def)
    then have "fmt0 (2560 / 1024) = ''2''"
      by (simp add: fmt0_def str_nat.simps digit_char_def)
    then show ?thesis
      using human_readable_size_exact [of 2560] by (simp add: steps)
  qed
  have i: "human_readable_size 3584 = Inr ''4K''"
  proof -
    have steps: "spec_scale_steps 3584 = 1"
      by (simp add: spec_scale_steps_def spec_scale_numeral)
    have "\<lfloor>3584 / 1024 :: rat\<rfloor> = 3"
      by (simp add: floor_eq_iff)
    then have "round_half_even (3584 / 1024) = 4"
      by (simp add: round_half_even_def Let_def)
    then have "fmt0 (3584 / 1024) = ''4''"
      by (simp add: fmt0_def str_nat.simps digit_char_def)
    then show ?thesis
      using human_readable_size_exact [of 3584] by (simp add: steps)
  qed
  show ?thesis
    by (intro conjI a b c d e f g human_readable_size_1023 human_readable_size_1024
        human_readable_size_1P h i)
qed

lemma spec_scale_steps_5000000: "spec_scale_steps 5000000 = 2"
  by (simp add: spec_scale_steps_def spec_scale_numeral)

lemma fmt0_5000000: "fmt0 (5000000 / 1024 ^ 2) = ''5''"
proof -
  have "\<lfloor>5000000 / 1024 ^ 2 :: rat\<rfloor> = 4"
    by (simp add: floor_eq_iff)
  then have "round_half_even (5000000 / 1024 ^ 2) = 5"
    by (simp add: round_half_even_def Let_def)
  then show ?thesis
    by (simp add: fmt0_def str_nat.simps digit_char_def)
qed

lemma to_double_nat_2_70: "to_double_nat (2 ^ 70) = 2 ^ 70"
proof -
  have "bit_length (2 ^ 70) = Suc 70"
    by (rule bit_length_eq) simp_all
  then show ?thesis
    by (simp add: to_double_nat_def)
qed

lemma str_nat_1048576: "str_nat 1048576 = ''1048576''"
  by (simp add: str_nat.simps digit_char_def)

theorem human_readable_size_scaling_witness:
  "(5000000 :: nat) < 2 ^ 53
   \<and> human_readable_size 5000000 = Inr ''5M''
   \<and> to_double_nat (2 ^ 70) < 2 ^ 1034 \<and> (1024 ^ 5 :: nat) \<le> 2 ^ 70
   \<and> human_readable_size (2 ^ 70) = Inr ''1048576P''
   \<and> human_readable_size 2560 = Inr ''2K''
   \<and> human_readable_size 3584 = Inr ''4K''
   \<and> (2 ^ 1034 :: nat) \<le> 2 ^ 1100
   \<and> human_readable_size (2 ^ 1100) = Inl OverflowError"
proof -
  have "human_readable_size 5000000 =
        Inr (fmt0 (of_nat 5000000 / 1024 ^ spec_scale_steps 5000000)
             @ [''BKMGTP'' ! spec_scale_steps 5000000])"
    using human_readable_size_scaling [of 5000000] by simp
  then have five: "human_readable_size 5000000 = Inr ''5M''"
    unfolding spec_scale_steps_5000000 using fmt0_5000000 by simp
  have steps: "spec_scale_steps (2 ^ 70) = 5"
    using human_readable_size_scaling [of "2 ^ 70"] by simp
  have "human_readable_size (2 ^ 70) =
        Inr (fmt0 (of_nat (to_double_nat (2 ^ 70)) / 1024 ^ spec_scale_steps (2 ^ 70))
             @ [''BKMGTP'' ! spec_scale_steps (2 ^ 70)])"
    using human_readable_size_scaling [of "2 ^ 70"] by (simp add: to_double_nat_2_70)
  then have big: "human_readable_size (2 ^ 70) = Inr ''1048576P''"
    unfolding steps to_double_nat_2_70
    using fmt0_of_nat [of 1048576] by (simp add: str_nat_1048576)
  have over: "human_readable_size (2 ^ 1100) = Inl OverflowError"
    using human_readable_size_scaling [of "2 ^ 1100"] by simp
  have rng: "to_double_nat (2 ^ 70) < 2 ^ 1034"
    unfolding to_double_nat_2_70 by simp
  have half2: "human_readable_size 2560 = Inr ''2K''"
    using human_readable_size_scaling [of 0] by blast
  have half4: "human_readable_size 3584 = Inr ''4K''"
    using human_readable_size_scaling [of 0] by blast
  have t1: "(5000000 :: nat) < 2 ^ 53" and t2: "(1024 ^ 5 :: nat) \<le> 2 ^ 70"
    and t3: "(2 ^ 1034 :: nat) \<le> 2 ^ 1100"
    by simp_all
  show ?thesis
    by (intro conjI t1 five rng t2 big half2 half4 t3 over)
qed

text \<open>
  A byte count of \<open>2 ^ 1034\<close> is beyond \<open>1024 ^ 5\<close>, and the encoder reports
  nothing for it: the division raises OverflowError.
\<close>

theorem human_readable_size_scaling_counterexample:
  "(1024 ^ 5 :: nat) \<le> 2 ^ 1034
   \<and> human_readable_size (2 ^ 1034) = Inl OverflowError"
  using human_readable_size_overflow [of "2 ^ 1034"] by simp

section \<open>Properties of the size codec: the decoder and the round trip\<close>

lemma unit_index_cases:
  "k \<le> 5 \<Longrightarrow> k = 0 \<or> k = 1 \<or> k = 2 \<or> k = 3 \<or> k = 4 \<or> k = (5::nat)"
  by arith

lemma unit_props:
  assumes "k \<le> 5"
  shows "upper_char (''BKMGTP'' ! k) = ''BKMGTP'' ! k"
    and "map_of units (''BKMGTP'' ! k) = Some (1024 ^ k)"
proof -
  note k = unit_index_cases [OF assms]
  from k show "upper_char (''BKMGTP'' ! k) = ''BKMGTP'' ! k"
    by (elim disjE) (simp_all add: upper_char_def)
  from k show "map_of units (''BKMGTP'' ! k) = Some (1024 ^ k)"
    by (elim disjE) (simp_all add: units_def)
qed

lemma is_digit_props:
  assumes "is_digit c"
  shows "upper_char c = c" and "map_of units c = None"
proof -
  have c: "c = CHR ''0'' \<or> c = CHR ''1'' \<or> c = CHR ''2'' \<or> c = CHR ''3'' \<or> c = CHR ''4''
         \<or> c = CHR ''5'' \<or> c = CHR ''6'' \<or> c = CHR ''7'' \<or> c = CHR ''8'' \<or> c = CHR ''9''"
    using assms by (simp add: is_digit_def)
  from c show "upper_char c = c"
    by (elim disjE) (simp_all add: upper_char_def)
  from c show "map_of units c = None"
    by (elim disjE) (simp_all add: units_def)
qed

lemma all_digits_upper: "all_digits ds \<Longrightarrow> upper ds = ds"
  by (induction ds) (simp_all add: all_digits_def upper_def is_digit_props(1))

lemma lower_unit_props:
  assumes "k \<le> 5"
  shows "upper_char (''bkmgtp'' ! k) = ''BKMGTP'' ! k"
  using unit_index_cases [OF assms]
  by (elim disjE) (simp_all add: upper_char_def)

lemma size_to_bytes_unit:
  assumes "all_digits ds" and "ds \<noteq> []" and "nat_of_digits ds < 2 ^ 53" and "k \<le> 5"
    and "upper_char c = ''BKMGTP'' ! k"
  shows "size_to_bytes (ds @ [c]) = Inr (int (nat_of_digits ds) * 1024 ^ k)"
proof -
  define u where "u = ''BKMGTP'' ! k"
  define m where "m = nat_of_digits ds"
  have up: "upper (ds @ [c]) = ds @ [u]"
    using all_digits_upper [OF assms(1)] assms(5) by (simp add: upper_def u_def)
  have fl: "py_float ds = Inr (of_nat m)"
    using assms(1,2) by (simp add: py_float_def m_def to_double_nat_exact [OF assms(3)])
  have "(1024::nat) ^ k \<le> 1024 ^ 5"
    using assms(4) by (intro power_increasing) simp_all
  then have "m * 1024 ^ k < 2 ^ 53 * 1024 ^ 5"
    using assms(3) unfolding m_def by (intro mult_less_le_imp_less) simp_all
  then have "(of_nat (m * 1024 ^ k) :: rat) < of_nat (2 ^ 53 * 1024 ^ 5)"
    by (simp only: of_nat_less_iff)
  then have "(of_nat (m * 1024 ^ k) :: rat) < 2 ^ 1024"
    by simp
  then have ok: "\<not> (2 ^ 1024 :: rat) \<le> of_nat m * of_nat (1024 ^ k)"
    by (simp add: not_le)
  have "\<lfloor>(of_nat m :: rat) * of_nat (1024 ^ k)\<rfloor> = \<lfloor>(of_nat (m * 1024 ^ k) :: rat)\<rfloor>"
    by simp
  then have fl2: "\<lfloor>(of_nat m :: rat) * of_nat (1024 ^ k)\<rfloor> = int m * 1024 ^ k"
    by (simp only: floor_of_nat) simp
  have "size_to_bytes (ds @ [c]) = Inr (int m * 1024 ^ k)"
    using ok fl2 unit_props(2) [OF assms(4)]
    by (simp add: size_to_bytes_def up fl Let_def u_def [symmetric])
  then show ?thesis
    by (simp only: m_def)
qed

lemma size_to_bytes_encoded:
  assumes "m < 2 ^ 53" and "k \<le> 5"
  shows "size_to_bytes (str_nat m @ [''BKMGTP'' ! k]) = Inr (int m * 1024 ^ k)"
  using size_to_bytes_unit [of "str_nat m" k "''BKMGTP'' ! k"] str_nat_props [of m] assms
    unit_props(1) [OF assms(2)]
  by simp

lemma size_to_bytes_raw:
  assumes "all_digits ds" and "ds \<noteq> []" and "length ds \<le> 4300"
  shows "size_to_bytes ds = Inr (int (nat_of_digits ds))"
proof -
  have "is_digit (last ds)"
    using assms(1,2) by (simp add: all_digits_def list_all_iff)
  then have "map_of units (last ds) = None"
    by (rule is_digit_props(2))
  then show ?thesis
    using assms by (simp add: size_to_bytes_def all_digits_upper py_int_def Let_def)
qed

lemma round_scaled_near:
  assumes "0 < U"
  shows "2 * \<bar>int (nat (round_half_even (of_nat D / of_nat U))) * int U - int D\<bar> \<le> int U"
proof -
  define x :: rat where "x = of_nat D / of_nat U"
  define r where "r = round_half_even x"
  have "0 \<le> x" by (simp add: x_def)
  then have r0: "0 \<le> r" unfolding r_def by (rule round_half_even_nonneg)
  have U: "(0::rat) < of_nat U" using assms by simp
  have "2 * \<bar>of_int r - x\<bar> \<le> 1"
    unfolding r_def by (rule round_half_even_near)
  then have "2 * \<bar>of_int r - x\<bar> * of_nat U \<le> 1 * of_nat U"
    using U by (intro mult_right_mono) simp_all
  moreover have "\<bar>of_int r - x\<bar> * of_nat U = \<bar>of_int r * of_nat U - of_nat D\<bar>"
  proof -
    have "\<bar>of_int r - x\<bar> * of_nat U = \<bar>(of_int r - x) * of_nat U\<bar>"
      using U by (simp add: abs_mult)
    also have "(of_int r - x) * of_nat U = of_int r * of_nat U - of_nat D"
      using U by (simp add: x_def field_simps)
    finally show ?thesis .
  qed
  ultimately have "2 * \<bar>(of_int r :: rat) * of_nat U - of_nat D\<bar> \<le> of_nat U"
    by simp
  then have "(of_int (2 * \<bar>r * int U - int D\<bar>) :: rat) \<le> of_int (int U)"
    by simp
  then have "2 * \<bar>r * int U - int D\<bar> \<le> int U"
    by (simp only: of_int_le_iff)
  then show ?thesis
    using r0 by (simp add: r_def x_def)
qed

lemma round_le_of_nat:
  assumes "0 \<le> x" and "x \<le> of_nat N"
  shows "nat (round_half_even x) \<le> N"
proof -
  define a :: rat where "a = of_int (round_half_even x)"
  have "2 * \<bar>a - x\<bar> \<le> 1"
    unfolding a_def by (rule round_half_even_near)
  then have "\<bar>a - x\<bar> \<le> 1 / 2"
    by simp
  then have "a - x \<le> 1 / 2"
    by (simp only: abs_le_iff)
  then have "a < of_nat N + 1"
    using assms(2) by simp
  then have "(of_int (round_half_even x) :: rat) < of_int (int N + 1)"
    by (simp add: a_def)
  then have "round_half_even x < int N + 1"
    by (simp only: of_int_less_iff)
  then show ?thesis by simp
qed

lemma round_trip_exact:
  assumes "n < 2 ^ 53"
  shows "\<exists>s b. human_readable_size n = Inr s \<and> size_to_bytes s = Inr b
           \<and> 2 * \<bar>b - int n\<bar> \<le> 1024 ^ spec_scale_steps n"
proof -
  define k where "k = spec_scale_steps n"
  define m where "m = nat (round_half_even (of_nat n / of_nat (1024 ^ k)))"
  have k: "k \<le> 5"
    unfolding k_def spec_scale_steps_def by (rule spec_scale_le)
  have enc: "human_readable_size n = Inr (str_nat m @ [''BKMGTP'' ! k])"
    using human_readable_size_exact [OF assms] by (simp add: fmt0_def m_def k_def)
  have "(1::rat) \<le> of_nat (1024 ^ k)"
    by simp
  then have "(of_nat n :: rat) / of_nat (1024 ^ k) \<le> of_nat n / 1"
    by (intro divide_left_mono) simp_all
  then have "m \<le> n"
    unfolding m_def by (intro round_le_of_nat) simp_all
  then have "m < 2 ^ 53"
    using assms by simp
  then have dec: "size_to_bytes (str_nat m @ [''BKMGTP'' ! k]) = Inr (int m * 1024 ^ k)"
    using k by (rule size_to_bytes_encoded)
  have "2 * \<bar>int m * int (1024 ^ k) - int n\<bar> \<le> int (1024 ^ k)"
    unfolding m_def by (rule round_scaled_near) simp
  then have "2 * \<bar>int m * 1024 ^ k - int n\<bar> \<le> 1024 ^ k"
    by simp
  with enc dec show ?thesis
    unfolding k_def by blast
qed

lemma round_trip_peta:
  assumes "2 ^ 53 \<le> n" and "n < 2 ^ 64"
  shows "\<exists>s b. human_readable_size n = Inr s \<and> size_to_bytes s = Inr b
           \<and> \<bar>b - int n\<bar> < 1024 ^ spec_scale_steps n"
proof -
  define D where "D = to_double_nat n"
  define m where "m = nat (round_half_even (of_nat D / of_nat (1024 ^ 5)))"
  have big: "1024 ^ 5 \<le> n"
    using assms(1) by simp
  have k: "spec_scale_steps n = 5"
    using big by (simp only: spec_scale_steps_peta)
  have D: "D < 2 ^ 65" "D \<le> n + 2048" "n \<le> D + 2048"
    unfolding D_def
    using to_double_nat_peta(2) [OF big assms(2)] to_double_nat_near [OF assms(2)] by simp_all
  have enc: "human_readable_size n = Inr (str_nat m @ [''BKMGTP'' ! 5])"
    using human_readable_size_peta [OF big assms(2)] by (simp add: fmt0_def m_def D_def)
  have "(of_nat D :: rat) \<le> of_nat (2 ^ 65)"
    using D(1) by (simp only: of_nat_le_iff less_imp_le)
  then have "(of_nat D :: rat) / of_nat (1024 ^ 5) \<le> of_nat (2 ^ 15)"
    by (simp add: field_simps)
  then have "m \<le> 2 ^ 15"
    unfolding m_def by (intro round_le_of_nat) simp_all
  then have "m < 2 ^ 53"
    by simp
  then have dec: "size_to_bytes (str_nat m @ [''BKMGTP'' ! 5]) = Inr (int m * 1024 ^ 5)"
    by (rule size_to_bytes_encoded) simp
  have "2 * \<bar>int m * int (1024 ^ 5) - int D\<bar> \<le> int (1024 ^ 5)"
    unfolding m_def by (rule round_scaled_near) simp
  then have "2 * \<bar>int m * 1024 ^ 5 - int D\<bar> \<le> 1024 ^ 5"
    by simp
  then have "\<bar>int m * 1024 ^ 5 - int n\<bar> < 1024 ^ 5"
    using D(2,3) by (simp add: abs_le_iff abs_less_iff)
  with enc dec show ?thesis
    unfolding k by blast
qed

lemma human_readable_size_1536: "human_readable_size 1536 = Inr ''2K''"
proof -
  have steps: "spec_scale_steps 1536 = 1"
    by (simp add: spec_scale_steps_def spec_scale_numeral)
  have "\<lfloor>1536 / 1024 :: rat\<rfloor> = 1"
    by (simp add: floor_eq_iff)
  then have "round_half_even (1536 / 1024) = 2"
    by (simp add: round_half_even_def Let_def)
  then have "fmt0 (1536 / 1024) = ''2''"
    by (simp add: fmt0_def str_nat.simps digit_char_def)
  then show ?thesis
    using human_readable_size_exact [of 1536] by (simp add: steps)
qed

lemma size_to_bytes_2K: "size_to_bytes ''2K'' = Inr 2048"
  by (simp add: size_to_bytes_def upper_def upper_char_def units_def py_float_def all_digits_def
      is_digit_def nat_of_digits_def digit_val_def to_double_nat_exact)

text \<open>
  C6, as the code has it. For every size below \<open>2 ^ 64\<close> bytes, which covers
  every size a file can have, the encoded size decodes, and the decoded value differs
  from the size by less than one unit of the scale chosen by the encoder; below
  \<open>2 ^ 53\<close> bytes, where the encoder's divisions are exact, by at most half a unit.
  1536 bytes are encoded as \<^verbatim>\<open>2K\<close>, which decodes to 2048. The decoder multiplies the
  number before a unit letter, in either case, by the factor of the letter in the table,
  and reads a string of digits as a number of bytes.
\<close>

theorem size_round_trip:
  "(n < 2 ^ 64 \<longrightarrow>
      (\<exists>s b. human_readable_size n = Inr s \<and> size_to_bytes s = Inr b
         \<and> \<bar>b - int n\<bar> < 1024 ^ spec_scale_steps n
         \<and> (n < 2 ^ 53 \<longrightarrow> 2 * \<bar>b - int n\<bar> \<le> 1024 ^ spec_scale_steps n)))
   \<and> human_readable_size 1536 = Inr ''2K''
   \<and> size_to_bytes ''2K'' = Inr 2048
   \<and> (all_digits ds \<and> ds \<noteq> [] \<and> nat_of_digits ds < 2 ^ 53 \<and> k \<le> 5 \<longrightarrow>
        size_to_bytes (ds @ [''BKMGTP'' ! k]) = Inr (int (nat_of_digits ds) * 1024 ^ k)
        \<and> size_to_bytes (ds @ [''bkmgtp'' ! k]) = Inr (int (nat_of_digits ds) * 1024 ^ k))
   \<and> (all_digits ds \<and> ds \<noteq> [] \<and> length ds \<le> 4300 \<longrightarrow>
        size_to_bytes ds = Inr (int (nat_of_digits ds)))"
proof -
  have trip: "n < 2 ^ 64 \<longrightarrow>
      (\<exists>s b. human_readable_size n = Inr s \<and> size_to_bytes s = Inr b
         \<and> \<bar>b - int n\<bar> < 1024 ^ spec_scale_steps n
         \<and> (n < 2 ^ 53 \<longrightarrow> 2 * \<bar>b - int n\<bar> \<le> 1024 ^ spec_scale_steps n))"
  proof
    assume n: "n < 2 ^ 64"
    show "\<exists>s b. human_readable_size n = Inr s \<and> size_to_bytes s = Inr b
         \<and> \<bar>b - int n\<bar> < 1024 ^ spec_scale_steps n
         \<and> (n < 2 ^ 53 \<longrightarrow> 2 * \<bar>b - int n\<bar> \<le> 1024 ^ spec_scale_steps n)"
    proof (cases "n < 2 ^ 53")
      case True
      obtain s b where sb: "human_readable_size n = Inr s" "size_to_bytes s = Inr b"
        "2 * \<bar>b - int n\<bar> \<le> 1024 ^ spec_scale_steps n"
        using round_trip_exact [OF True] by blast
      define a where "a = \<bar>b - int n\<bar>"
      define U :: int where "U = 1024 ^ spec_scale_steps n"
      have "0 \<le> a" "0 < U" "2 * a \<le> U"
        using sb(3) by (simp_all add: a_def U_def)
      then have "a < U"
        by linarith
      then have "\<bar>b - int n\<bar> < 1024 ^ spec_scale_steps n"
        by (simp only: a_def U_def)
      with sb show ?thesis by blast
    next
      case False
      then have "2 ^ 53 \<le> n" by simp
      then show ?thesis
        using round_trip_peta [OF _ n] False by blast
    qed
  qed
  have unit: "all_digits ds \<and> ds \<noteq> [] \<and> nat_of_digits ds < 2 ^ 53 \<and> k \<le> 5 \<longrightarrow>
        size_to_bytes (ds @ [''BKMGTP'' ! k]) = Inr (int (nat_of_digits ds) * 1024 ^ k)
        \<and> size_to_bytes (ds @ [''bkmgtp'' ! k]) = Inr (int (nat_of_digits ds) * 1024 ^ k)"
    using size_to_bytes_unit [of ds k "''BKMGTP'' ! k"] size_to_bytes_unit [of ds k "''bkmgtp'' ! k"]
      unit_props(1) [of k] lower_unit_props [of k]
    by blast
  have raw: "all_digits ds \<and> ds \<noteq> [] \<and> length ds \<le> 4300 \<longrightarrow>
        size_to_bytes ds = Inr (int (nat_of_digits ds))"
    using size_to_bytes_raw by blast
  show ?thesis
    using trip unit raw human_readable_size_1536 size_to_bytes_2K by blast
qed

theorem size_round_trip_witness:
  "(5000000 :: nat) < 2 ^ 64 \<and> (5000000 :: nat) < 2 ^ 53
   \<and> (\<exists>s b. human_readable_size 5000000 = Inr s \<and> size_to_bytes s = Inr b
         \<and> \<bar>b - 5000000\<bar> < 1024 ^ 2 \<and> 2 * \<bar>b - 5000000\<bar> \<le> 1024 ^ 2)
   \<and> all_digits ''10'' \<and> nat_of_digits ''10'' < 2 ^ 53
   \<and> size_to_bytes ''10m'' = Inr (10 * 1024 ^ 2)
   \<and> all_digits ''123''
   \<and> size_to_bytes ''123'' = Inr 123"
proof -
  have d10: "all_digits ''10''" "nat_of_digits ''10'' = 10"
    and d123: "all_digits ''123''" "nat_of_digits ''123'' = 123"
    by (simp_all add: all_digits_def is_digit_def nat_of_digits_def digit_val_def)
  have "\<exists>s b. human_readable_size 5000000 = Inr s \<and> size_to_bytes s = Inr b
         \<and> \<bar>b - 5000000\<bar> < 1024 ^ 2 \<and> 2 * \<bar>b - 5000000\<bar> \<le> 1024 ^ 2"
    using size_round_trip [of 5000000 "''10''" 2] by (simp add: spec_scale_steps_5000000)
  moreover have "size_to_bytes ''10m'' = Inr (10 * 1024 ^ 2)"
    using size_round_trip [of 5000000 "''10''" 2] d10 by simp
  moreover have "size_to_bytes ''123'' = Inr 123"
    using size_round_trip [of 5000000 "''123''" 2] d123 by simp
  ultimately show ?thesis
    using d10 d123 by simp
qed

lemma to_double_nat_2_104_51: "to_double_nat (2 ^ 104 + 2 ^ 51) = 2 ^ 104"
proof -
  have "bit_length (2 ^ 104 + 2 ^ 51) = Suc 104"
    by (rule bit_length_eq) simp_all
  then show ?thesis
    by (simp add: to_double_nat_def)
qed

lemma to_double_nat_2_54: "to_double_nat (2 ^ 54) = 2 ^ 54"
proof -
  have "bit_length (2 ^ 54) = Suc 54"
    by (rule bit_length_eq) simp_all
  then show ?thesis
    by (simp add: to_double_nat_def)
qed

lemma str_nat_2_54: "str_nat 18014398509481984 = ''18014398509481984''"
  by (simp add: str_nat.simps digit_char_def)

lemma human_readable_size_2_104_51:
  "human_readable_size (2 ^ 104 + 2 ^ 51) = Inr ''18014398509481984P''"
proof -
  have steps: "spec_scale_steps (2 ^ 104 + 2 ^ 51) = 5"
    by (simp only: spec_scale_steps_peta) simp
  have "to_double_nat (2 ^ 104 + 2 ^ 51) < 2 ^ 1034"
    unfolding to_double_nat_2_104_51 by simp
  then have "human_readable_size (2 ^ 104 + 2 ^ 51) =
      Inr (fmt0 (of_nat (2 ^ 104) / 1024 ^ 5) @ [''BKMGTP'' ! 5])"
    using human_readable_size_any [of "2 ^ 104 + 2 ^ 51"]
    by (simp only: steps to_double_nat_2_104_51)
  moreover have "fmt0 (of_nat (2 ^ 104) / 1024 ^ 5) = str_nat (2 ^ 54)"
    using fmt0_of_nat [of "2 ^ 54"] by simp
  ultimately show ?thesis
    by (simp add: str_nat_2_54)
qed

lemma size_to_bytes_2_54_P: "size_to_bytes ''18014398509481984P'' = Inr (2 ^ 104)"
proof -
  have "nat_of_digits ''18014398509481984'' = 2 ^ 54"
    by (simp add: nat_of_digits_def digit_val_def)
  then have "py_float ''18014398509481984'' = Inr (2 ^ 54)"
    using to_double_nat_2_54 by (simp add: py_float_def all_digits_def is_digit_def)
  then show ?thesis
    by (simp add: size_to_bytes_def upper_def upper_char_def units_def)
qed

text \<open>
  The round trip of \<open>2 ^ 104 + 2 ^ 51\<close> bytes: the nearest double is \<open>2 ^ 104\<close>,
  the encoded size decodes to \<open>2 ^ 104\<close>, and the difference is two units of the
  scale P.
\<close>

theorem size_round_trip_counterexample:
  "human_readable_size (2 ^ 104 + 2 ^ 51) = Inr ''18014398509481984P''
   \<and> size_to_bytes ''18014398509481984P'' = Inr (2 ^ 104)
   \<and> spec_scale_steps (2 ^ 104 + 2 ^ 51) = 5
   \<and> \<bar>2 ^ 104 - int (2 ^ 104 + 2 ^ 51)\<bar> = 2 * 1024 ^ 5"
proof -
  have "spec_scale_steps (2 ^ 104 + 2 ^ 51) = 5"
    by (simp only: spec_scale_steps_peta) simp
  moreover have "\<bar>2 ^ 104 - int (2 ^ 104 + 2 ^ 51)\<bar> = 2 * 1024 ^ 5"
    by simp
  ultimately show ?thesis
    using human_readable_size_2_104_51 size_to_bytes_2_54_P by (intro conjI)
qed

section \<open>Properties of the duplicate query: stored sizes\<close>

lemma sql_unit_factor_table:
  "sql_unit_factor s =
     (if s = [] then 1 else case map_of units (last s) of Some u \<Rightarrow> u | None \<Rightarrow> 1)"
  by (simp add: sql_unit_factor_def units_def)

lemma sql_size_bytes_encoded:
  assumes "m < 2 ^ 53" and "k \<le> 5"
  shows "sql_size_bytes (str_nat m @ [''BKMGTP'' ! k]) = Some (of_nat m * 1024 ^ k)"
proof -
  define u where "u = ''BKMGTP'' ! k"
  have u: "map_of units u = Some (1024 ^ k)"
    unfolding u_def using assms(2) by (rule unit_props(2))
  have "\<forall>c\<in>set (str_nat m). c \<noteq> u"
  proof
    fix c
    assume "c \<in> set (str_nat m)"
    then have "is_digit c"
      using str_nat_props [of m] by (simp add: all_digits_def list_all_iff)
    then have "map_of units c = None"
      by (rule is_digit_props(2))
    then show "c \<noteq> u"
      using u by auto
  qed
  then have num: "filter (\<lambda>c. c \<noteq> u) (str_nat m) = str_nat m"
    by (simp add: filter_id_conv)
  have fac: "sql_unit_factor (str_nat m @ [u]) = 1024 ^ k"
    using u by (simp add: sql_unit_factor_table)
  have "sql_size_bytes (str_nat m @ [u]) = Some (of_nat m * 1024 ^ k)"
    using str_nat_props [of m] assms(1) by (simp add: sql_size_bytes_def num fac)
  then show ?thesis
    by (simp only: u_def)
qed

lemma human_readable_size_form:
  assumes "n < 2 ^ 64"
  shows "\<exists>m k. m < 2 ^ 53 \<and> k \<le> 5
           \<and> human_readable_size n = Inr (str_nat m @ [''BKMGTP'' ! k])"
proof (cases "n < 2 ^ 53")
  case True
  define k where "k = spec_scale_steps n"
  define m where "m = nat (round_half_even (of_nat n / of_nat (1024 ^ k)))"
  have k: "k \<le> 5"
    unfolding k_def spec_scale_steps_def by (rule spec_scale_le)
  have enc: "human_readable_size n = Inr (str_nat m @ [''BKMGTP'' ! k])"
    using human_readable_size_exact [OF True] by (simp add: fmt0_def m_def k_def)
  have "(1::rat) \<le> of_nat (1024 ^ k)"
    by simp
  then have "(of_nat n :: rat) / of_nat (1024 ^ k) \<le> of_nat n / 1"
    by (intro divide_left_mono) simp_all
  then have "m \<le> n"
    unfolding m_def by (intro round_le_of_nat) simp_all
  then have "m < 2 ^ 53"
    using True by simp
  with k enc show ?thesis by blast
next
  case False
  define D where "D = to_double_nat n"
  define m where "m = nat (round_half_even (of_nat D / of_nat (1024 ^ 5)))"
  have big: "1024 ^ 5 \<le> n"
    using False by simp
  have D: "D < 2 ^ 65"
    unfolding D_def using to_double_nat_peta(2) [OF big assms] by simp
  have enc: "human_readable_size n = Inr (str_nat m @ [''BKMGTP'' ! 5])"
    using human_readable_size_peta [OF big assms] by (simp add: fmt0_def m_def D_def)
  have "(of_nat D :: rat) \<le> of_nat (2 ^ 65)"
    using D by (simp only: of_nat_le_iff less_imp_le)
  then have "(of_nat D :: rat) / of_nat (1024 ^ 5) \<le> of_nat (2 ^ 15)"
    by (simp add: field_simps)
  then have "m \<le> 2 ^ 15"
    unfolding m_def by (intro round_le_of_nat) simp_all
  then have "m < 2 ^ 53"
    by simp
  with enc show ?thesis by blast
qed

lemma stored_size_decodes:
  assumes "n < 2 ^ 64" and "human_readable_size n = Inr s"
  shows "\<exists>b. size_to_bytes s = Inr b \<and> sql_size_bytes s = Some (of_int b)"
proof -
  obtain m k where mk: "m < 2 ^ 53" "k \<le> 5"
    "human_readable_size n = Inr (str_nat m @ [''BKMGTP'' ! k])"
    using human_readable_size_form [OF assms(1)] by blast
  have s: "s = str_nat m @ [''BKMGTP'' ! k]"
    using assms(2) mk(3) by simp
  have "size_to_bytes s = Inr (int m * 1024 ^ k)"
    unfolding s using mk(1,2) by (rule size_to_bytes_encoded)
  moreover have "sql_size_bytes s = Some (of_int (int m * 1024 ^ k))"
    unfolding s using sql_size_bytes_encoded [OF mk(1,2)] by simp
  ultimately show ?thesis by blast
qed

lemma sql_size_bytes_0B: "sql_size_bytes ''0B'' = Some 0"
  by (simp add: sql_size_bytes_def sql_unit_factor_def all_digits_def is_digit_def
      nat_of_digits_def digit_val_def)

lemma size_hr_of_decodes:
  assumes "\<forall>n. st = Some n \<longrightarrow> n < 2 ^ 64"
  shows "sql_size_bytes (size_hr_of st) \<noteq> None"
proof (cases st)
  case None
  then show ?thesis by (simp add: size_hr_of_def sql_size_bytes_0B)
next
  case (Some n)
  then have "n < 2 ^ 64" using assms by simp
  then obtain m k where mk: "m < 2 ^ 53" "k \<le> 5"
    "human_readable_size n = Inr (str_nat m @ [''BKMGTP'' ! k])"
    using human_readable_size_form by blast
  then show ?thesis
    using Some sql_size_bytes_encoded [OF mk(1,2)] by (simp add: size_hr_of_def)
qed

section \<open>Properties of the duplicate query: the size threshold\<close>

lemma sql_size_bytes_5M: "sql_size_bytes ''5M'' = Some 5242880"
  by (simp add: sql_size_bytes_def sql_unit_factor_def all_digits_def is_digit_def
      nat_of_digits_def digit_val_def)

lemma sql_size_bytes_10M: "sql_size_bytes ''10M'' = Some 10485760"
  by (simp add: sql_size_bytes_def sql_unit_factor_def all_digits_def is_digit_def
      nat_of_digits_def digit_val_def)

lemma sql_size_bytes_11M: "sql_size_bytes ''11M'' = Some 11534336"
  by (simp add: sql_size_bytes_def sql_unit_factor_def all_digits_def is_digit_def
      nat_of_digits_def digit_val_def)

lemma sql_size_bytes_20M: "sql_size_bytes ''20M'' = Some 20971520"
  by (simp add: sql_size_bytes_def sql_unit_factor_def all_digits_def is_digit_def
      nat_of_digits_def digit_val_def)

lemma size_to_bytes_20M: "size_to_bytes ''20M'' = Inr 20971520"
  by (simp add: size_to_bytes_def upper_def upper_char_def units_def py_float_def all_digits_def
      is_digit_def nat_of_digits_def digit_val_def to_double_nat_exact)

lemma size_to_bytes_5M: "size_to_bytes ''5M'' = Inr 5242880"
  by (simp add: size_to_bytes_def upper_def upper_char_def units_def py_float_def all_digits_def
      is_digit_def nat_of_digits_def digit_val_def to_double_nat_exact)

lemma fmt0_numeral: "fmt0 (numeral v) = str_nat (numeral v)"
  using fmt0_of_nat [of "numeral v"] by simp

lemma human_readable_size_MiB:
  "human_readable_size 5242880 = Inr ''5M''"
  "human_readable_size 10485760 = Inr ''10M''"
  "human_readable_size 11534336 = Inr ''11M''"
  "human_readable_size 20971520 = Inr ''20M''"
proof -
  have steps: "spec_scale_steps 5242880 = 2" "spec_scale_steps 10485760 = 2"
    "spec_scale_steps 11534336 = 2" "spec_scale_steps 20971520 = 2"
    by (simp_all add: spec_scale_steps_def spec_scale_numeral)
  show "human_readable_size 5242880 = Inr ''5M''"
    using human_readable_size_exact [of 5242880]
    by (simp add: steps fmt0_numeral str_nat.simps digit_char_def)
  show "human_readable_size 10485760 = Inr ''10M''"
    using human_readable_size_exact [of 10485760]
    by (simp add: steps fmt0_numeral str_nat.simps digit_char_def)
  show "human_readable_size 11534336 = Inr ''11M''"
    using human_readable_size_exact [of 11534336]
    by (simp add: steps fmt0_numeral str_nat.simps digit_char_def)
  show "human_readable_size 20971520 = Inr ''20M''"
    using human_readable_size_exact [of 20971520]
    by (simp add: steps fmt0_numeral str_nat.simps digit_char_def)
qed

text \<open>
  C1, as the code has it. \<^verbatim>\<open>WHERE\<close> filters the rows before \<^verbatim>\<open>GROUP BY\<close>, so
  with a threshold the query counts and lists only the rows whose size, decoded, is at
  least the threshold: a hash is returned when at least two of its rows are, and its
  group is made of the paths of those rows in the order of their insertion, every path
  but the last followed by a newline. The threshold is not 0 and fits 64 bits, and every
  stored size is the encoding of a size a file can have; the decoded size is then the
  number that \<^verbatim>\<open>size_to_bytes\<close> gives. A hash whose rows are all stored as
  \<^verbatim>\<open>5M\<close> is not returned for a threshold of 10 MiB. The factors of \<^verbatim>\<open>CASE\<close> are
  those of the decoder's table.
\<close>

theorem find_duplicates_threshold:
  assumes "m \<noteq> 0" and "- (2 ^ 63) \<le> m" and "m < 2 ^ 63"
    and "\<forall>r\<in>set conn. \<exists>n. n < 2 ^ 64 \<and> human_readable_size n = Inr (row_size r)"
  shows "(\<exists>gs. find_duplicates conn (Some m) = Inr gs
      \<and> distinct (map fst gs)
      \<and> (\<forall>h g. (h, g) \<in> set gs \<longleftrightarrow>
            2 \<le> length (filter (\<lambda>r. row_hash r = h \<and>
                    (case size_to_bytes (row_size r) of Inr b \<Rightarrow> m \<le> b | Inl e \<Rightarrow> False)) conn)
            \<and> g = concat (map (\<lambda>p. p @ [CHR 0x0A])
                      (butlast (map row_path (filter (\<lambda>r. row_hash r = h \<and>
                         (case size_to_bytes (row_size r) of Inr b \<Rightarrow> m \<le> b | Inl e \<Rightarrow> False))
                         conn))))
                  @ last (map row_path (filter (\<lambda>r. row_hash r = h \<and>
                         (case size_to_bytes (row_size r) of Inr b \<Rightarrow> m \<le> b | Inl e \<Rightarrow> False))
                         conn)))
      \<and> (m = 10 * 1024 * 1024 \<longrightarrow>
           (\<forall>h. (\<forall>r\<in>set conn. row_hash r = h \<longrightarrow> row_size r = ''5M'') \<longrightarrow>
                h \<notin> fst ` set gs)))
   \<and> (\<forall>s. sql_unit_factor s =
          (if s = [] then 1 else case map_of units (last s) of Some u \<Rightarrow> u | None \<Rightarrow> 1))
   \<and> (\<forall>n s. n < 2 ^ 64 \<and> human_readable_size n = Inr s \<longrightarrow>
          (\<exists>b. size_to_bytes s = Inr b \<and> sql_size_bytes s = Some (of_int b)))"
proof -
  let ?keep = "\<lambda>r. case size_to_bytes (row_size r) of Inr b \<Rightarrow> m \<le> b | Inl e \<Rightarrow> False"
  let ?kept = "filter (size_at_least m) conn"
  let ?ps = "\<lambda>h. map row_path (filter (\<lambda>r. row_hash r = h \<and> ?keep r) conn)"
  have join: "join_with sep ps = concat (map (\<lambda>p. p @ sep) (butlast ps)) @ last ps"
    if "ps \<noteq> []" for sep ps
    using that by (induction sep ps rule: join_with.induct) simp_all
  have decoded: "\<exists>b. size_to_bytes (row_size r) = Inr b
                  \<and> sql_size_bytes (row_size r) = Some (of_int b)"
    if "r \<in> set conn" for r
    using that assms(4) stored_size_decodes by blast
  have same: "size_at_least m r \<longleftrightarrow> ?keep r" if rin: "r \<in> set conn" for r
  proof -
    obtain b where "size_to_bytes (row_size r) = Inr b"
      "sql_size_bytes (row_size r) = Some (of_int b)"
      using decoded [OF rin] by blast
    then show ?thesis
      by (simp add: size_at_least_def)
  qed
  have modelled: "\<forall>r\<in>set conn. sql_size_bytes (row_size r) \<noteq> None"
    using decoded by fastforce
  have eq: "find_duplicates conn (Some m) = Inr (group_by_hash ?kept)"
    using assms(1-3) modelled by (auto simp: find_duplicates_def Let_def)
  have dist: "distinct (map fst (group_by_hash ?kept))"
    by (simp add: group_by_hash_def comp_def)
  have rows: "filter (\<lambda>r. row_hash r = h) ?kept = filter (\<lambda>r. row_hash r = h \<and> ?keep r) conn"
    for h
  proof -
    have "filter (\<lambda>r. row_hash r = h) ?kept =
            filter (\<lambda>r. size_at_least m r \<and> row_hash r = h) conn"
      by simp
    also have "\<dots> = filter (\<lambda>r. row_hash r = h \<and> ?keep r) conn"
      using same by (intro filter_cong) auto
    finally show ?thesis .
  qed
  have mem: "\<forall>h g. (h, g) \<in> set (group_by_hash ?kept) \<longleftrightarrow>
            2 \<le> length (filter (\<lambda>r. row_hash r = h \<and> ?keep r) conn)
            \<and> g = concat (map (\<lambda>p. p @ [CHR 0x0A]) (butlast (?ps h))) @ last (?ps h)"
  proof (intro allI)
    fix h g
    have listed: "h \<in> set (map row_hash ?kept)"
      if "2 \<le> length (filter (\<lambda>r. row_hash r = h \<and> ?keep r) conn)"
    proof -
      have "filter (\<lambda>r. row_hash r = h) ?kept \<noteq> []"
        using that unfolding rows by auto
      then show ?thesis
        by (auto simp: filter_empty_conv)
    qed
    have joined: "join_with [CHR 0x0A] (?ps h) =
            concat (map (\<lambda>p. p @ [CHR 0x0A]) (butlast (?ps h))) @ last (?ps h)"
      if "2 \<le> length (filter (\<lambda>r. row_hash r = h \<and> ?keep r) conn)"
      using that by (intro join) auto
    have "(h, g) \<in> set (group_by_hash ?kept) \<longleftrightarrow>
            h \<in> set (map row_hash ?kept)
            \<and> 2 \<le> length (filter (\<lambda>r. row_hash r = h) ?kept)
            \<and> g = join_with [CHR 0x0A] (map row_path (filter (\<lambda>r. row_hash r = h) ?kept))"
      by (auto simp: group_by_hash_def rows_of_hash_def)
    then show "(h, g) \<in> set (group_by_hash ?kept) \<longleftrightarrow>
            2 \<le> length (filter (\<lambda>r. row_hash r = h \<and> ?keep r) conn)
            \<and> g = concat (map (\<lambda>p. p @ [CHR 0x0A]) (butlast (?ps h))) @ last (?ps h)"
      unfolding rows using listed joined by auto
  qed
  have five: "m = 10 * 1024 * 1024 \<longrightarrow>
           (\<forall>h. (\<forall>r\<in>set conn. row_hash r = h \<longrightarrow> row_size r = ''5M'') \<longrightarrow>
                h \<notin> fst ` set (group_by_hash ?kept))"
  proof (intro impI allI)
    fix h
    assume m: "m = 10 * 1024 * 1024"
      and all5: "\<forall>r\<in>set conn. row_hash r = h \<longrightarrow> row_size r = ''5M''"
    have "\<forall>r\<in>set conn. \<not> (row_hash r = h \<and> ?keep r)"
      using all5 by (auto simp: size_to_bytes_5M m)
    then have "filter (\<lambda>r. row_hash r = h \<and> ?keep r) conn = []"
      by (simp add: filter_empty_conv)
    then show "h \<notin> fst ` set (group_by_hash ?kept)"
      using mem by force
  qed
  have groups: "\<exists>gs. find_duplicates conn (Some m) = Inr gs
      \<and> distinct (map fst gs)
      \<and> (\<forall>h g. (h, g) \<in> set gs \<longleftrightarrow>
            2 \<le> length (filter (\<lambda>r. row_hash r = h \<and> ?keep r) conn)
            \<and> g = concat (map (\<lambda>p. p @ [CHR 0x0A]) (butlast (?ps h))) @ last (?ps h))
      \<and> (m = 10 * 1024 * 1024 \<longrightarrow>
           (\<forall>h. (\<forall>r\<in>set conn. row_hash r = h \<longrightarrow> row_size r = ''5M'') \<longrightarrow>
                h \<notin> fst ` set gs))"
    using eq dist mem five by blast
  have table: "\<forall>s. sql_unit_factor s =
          (if s = [] then 1 else case map_of units (last s) of Some u \<Rightarrow> u | None \<Rightarrow> 1)"
    by (simp add: sql_unit_factor_def units_def)
  have stored: "\<forall>n s. n < 2 ^ 64 \<and> human_readable_size n = Inr s \<longrightarrow>
          (\<exists>b. size_to_bytes s = Inr b \<and> sql_size_bytes s = Some (of_int b))"
    using stored_size_decodes by blast
  show ?thesis
    by (rule conjI [OF groups conjI [OF table stored]])
qed

lemma find_duplicates_threshold_example:
  "find_duplicates
      [\<lparr>row_path = ''/a'', row_hash = ''H1'', row_size = ''20M''\<rparr>,
       \<lparr>row_path = ''/b'', row_hash = ''H1'', row_size = ''10M''\<rparr>,
       \<lparr>row_path = ''/c'', row_hash = ''H1'', row_size = ''5M''\<rparr>,
       \<lparr>row_path = ''/d'', row_hash = ''H1'', row_size = ''11M''\<rparr>,
       \<lparr>row_path = ''/e'', row_hash = ''H2'', row_size = ''20M''\<rparr>]
      (Some (10 * 1024 * 1024))
   = Inr [(''H1'', ''/a'' @ [CHR 0x0A] @ ''/b'' @ [CHR 0x0A] @ ''/d'')]"
  by (simp add: find_duplicates_def size_at_least_def sql_size_bytes_5M sql_size_bytes_10M
      sql_size_bytes_11M sql_size_bytes_20M group_by_hash_def rows_of_hash_def)

lemma encoded_MiB:
  "\<exists>n. n < 2 ^ 64 \<and> human_readable_size n = Inr ''5M''"
  "\<exists>n. n < 2 ^ 64 \<and> human_readable_size n = Inr ''10M''"
  "\<exists>n. n < 2 ^ 64 \<and> human_readable_size n = Inr ''11M''"
  "\<exists>n. n < 2 ^ 64 \<and> human_readable_size n = Inr ''20M''"
proof -
  show "\<exists>n. n < 2 ^ 64 \<and> human_readable_size n = Inr ''5M''"
    using human_readable_size_MiB(1) by (intro exI [of _ 5242880]) simp
  show "\<exists>n. n < 2 ^ 64 \<and> human_readable_size n = Inr ''10M''"
    using human_readable_size_MiB(2) by (intro exI [of _ 10485760]) simp
  show "\<exists>n. n < 2 ^ 64 \<and> human_readable_size n = Inr ''11M''"
    using human_readable_size_MiB(3) by (intro exI [of _ 11534336]) simp
  show "\<exists>n. n < 2 ^ 64 \<and> human_readable_size n = Inr ''20M''"
    using human_readable_size_MiB(4) by (intro exI [of _ 20971520]) simp
qed

theorem find_duplicates_threshold_witness:
  "(10 * 1024 * 1024 :: int) \<noteq> 0 \<and> - (2 ^ 63) \<le> (10 * 1024 * 1024 :: int)
   \<and> (10 * 1024 * 1024 :: int) < 2 ^ 63
   \<and> (\<exists>gs. find_duplicates
          [\<lparr>row_path = ''/a'', row_hash = ''H1'', row_size = ''20M''\<rparr>,
           \<lparr>row_path = ''/b'', row_hash = ''H1'', row_size = ''10M''\<rparr>,
           \<lparr>row_path = ''/c'', row_hash = ''H1'', row_size = ''5M''\<rparr>,
           \<lparr>row_path = ''/d'', row_hash = ''H1'', row_size = ''11M''\<rparr>,
           \<lparr>row_path = ''/e'', row_hash = ''H2'', row_size = ''20M''\<rparr>]
          (Some (10 * 1024 * 1024)) = Inr gs
        \<and> distinct (map fst gs)
        \<and> gs = [(''H1'', ''/a'' @ [CHR 0x0A] @ ''/b'' @ [CHR 0x0A] @ ''/d'')])
   \<and> (\<exists>gs. find_duplicates
          [\<lparr>row_path = ''/a'', row_hash = ''H1'', row_size = ''5M''\<rparr>,
           \<lparr>row_path = ''/b'', row_hash = ''H1'', row_size = ''5M''\<rparr>]
          (Some (10 * 1024 * 1024)) = Inr gs
        \<and> ''H1'' \<notin> fst ` set gs)"
proof -
  let ?rows = "[\<lparr>row_path = ''/a'', row_hash = ''H1'', row_size = ''20M''\<rparr>,
           \<lparr>row_path = ''/b'', row_hash = ''H1'', row_size = ''10M''\<rparr>,
           \<lparr>row_path = ''/c'', row_hash = ''H1'', row_size = ''5M''\<rparr>,
           \<lparr>row_path = ''/d'', row_hash = ''H1'', row_size = ''11M''\<rparr>,
           \<lparr>row_path = ''/e'', row_hash = ''H2'', row_size = ''20M''\<rparr>]"
  let ?fives = "[\<lparr>row_path = ''/a'', row_hash = ''H1'', row_size = ''5M''\<rparr>,
           \<lparr>row_path = ''/b'', row_hash = ''H1'', row_size = ''5M''\<rparr>]"
  have m: "(10 * 1024 * 1024 :: int) \<noteq> 0" "- (2 ^ 63) \<le> (10 * 1024 * 1024 :: int)"
    "(10 * 1024 * 1024 :: int) < 2 ^ 63"
    by simp_all
  have sizes: "\<forall>r\<in>set ?rows. \<exists>n. n < 2 ^ 64 \<and> human_readable_size n = Inr (row_size r)"
    using encoded_MiB by simp
  have sizes5: "\<forall>r\<in>set ?fives. \<exists>n. n < 2 ^ 64 \<and> human_readable_size n = Inr (row_size r)"
    using encoded_MiB by simp
  have all5: "\<forall>r\<in>set ?fives. row_hash r = ''H1'' \<longrightarrow> row_size r = ''5M''"
    by simp
  obtain gs where gs: "find_duplicates ?rows (Some (10 * 1024 * 1024)) = Inr gs"
    "distinct (map fst gs)"
    using find_duplicates_threshold [OF m sizes] by blast
  have "gs = [(''H1'', ''/a'' @ [CHR 0x0A] @ ''/b'' @ [CHR 0x0A] @ ''/d'')]"
    using gs(1) find_duplicates_threshold_example by simp
  with gs have first: "\<exists>gs. find_duplicates ?rows (Some (10 * 1024 * 1024)) = Inr gs
        \<and> distinct (map fst gs)
        \<and> gs = [(''H1'', ''/a'' @ [CHR 0x0A] @ ''/b'' @ [CHR 0x0A] @ ''/d'')]"
    by blast
  obtain hs where hs: "find_duplicates ?fives (Some (10 * 1024 * 1024)) = Inr hs"
    and five: "\<forall>h. (\<forall>r\<in>set ?fives. row_hash r = h \<longrightarrow> row_size r = ''5M'') \<longrightarrow>
                h \<notin> fst ` set hs"
    using find_duplicates_threshold [OF m sizes5] by blast
  from five all5 have "''H1'' \<notin> fst ` set hs" by blast
  with hs have second: "\<exists>gs. find_duplicates ?fives (Some (10 * 1024 * 1024)) = Inr gs
        \<and> ''H1'' \<notin> fst ` set gs"
    by blast
  show ?thesis
    using m first second by (intro conjI)
qed

text \<open>
  Two rows share a hash and one of them is stored as \<^verbatim>\<open>20M\<close>, which decodes to
  20971520, above the threshold of 10 MiB; the query returns no group.
\<close>

theorem find_duplicates_threshold_counterexample:
  "find_duplicates
      [\<lparr>row_path = ''/a'', row_hash = ''H1'', row_size = ''20M''\<rparr>,
       \<lparr>row_path = ''/b'', row_hash = ''H1'', row_size = ''5M''\<rparr>]
      (Some (10 * 1024 * 1024)) = Inr []
   \<and> size_at_least (10 * 1024 * 1024)
       \<lparr>row_path = ''/a'', row_hash = ''H1'', row_size = ''20M''\<rparr>
   \<and> size_to_bytes ''20M'' = Inr 20971520
   \<and> (10 * 1024 * 1024 :: int) \<le> 20971520
   \<and> length (rows_of_hash ''H1''
       [\<lparr>row_path = ''/a'', row_hash = ''H1'', row_size = ''20M''\<rparr>,
        \<lparr>row_path = ''/b'', row_hash = ''H1'', row_size = ''5M''\<rparr>]) = 2"
  by (simp add: find_duplicates_def size_at_least_def sql_size_bytes_5M sql_size_bytes_20M
      size_to_bytes_20M group_by_hash_def rows_of_hash_def)

end
